theory Spec2Isabelle
  imports Complex_Main "HOL-Library.Word"
begin

section \<open>Conventions of the embedding\<close>

text \<open>
  The program is \<^verbatim>\<open>src/main.c\<close>, a spectrum analyser and tone generator.
  \<^item> A C \<^verbatim>\<open>double\<close> is modelled as a \<^typ>\<open>real\<close>: arithmetic and the calls into
    \<^verbatim>\<open>math.h\<close> are taken to be exact, and \<^verbatim>\<open>M_PI\<close> is \<^term>\<open>pi\<close>, with one exception.
    The sweep timer \<^verbatim>\<open>sweep_time += 1.0 / SAMPLE_RATE\<close> is compared with the sweep duration
    at the very sample where the exact sum reaches it, so there the rounding decides what
    the program does: the quotient and every sum of the timer are rounded as IEEE 754
    binary64 rounds them (to nearest, ties to even). Everywhere else the rounding changes
    stored values in their last digits and no branch.
  \<^item> A \<^verbatim>\<open>Sint16\<close> is a \<^typ>\<open>16 word\<close>, read with \<^term>\<open>sint\<close>.
  \<^item> A C \<^verbatim>\<open>int\<close> that is used as a truth value is a \<^typ>\<open>bool\<close>; one that counts or
    indexes is a \<^typ>\<open>nat\<close> or an \<^typ>\<open>int\<close> (no value in the modelled code leaves the 32-bit
    range for inputs that are finite doubles).
  \<^item> A fixed-size array is a list; a counting \<^verbatim>\<open>for\<close> loop is a \<^term>\<open>fold\<close> over its index
    range, a loop with \<^verbatim>\<open>break\<close> is a recursive function.
  \<^item> The SDL handles (window, renderer, fonts, audio devices) and all drawing are left out.
\<close>

subsection \<open>Constants\<close>

definition SCREEN_WIDTH :: int where "SCREEN_WIDTH = 1024"
definition SCREEN_HEIGHT :: int where "SCREEN_HEIGHT = 600"
definition SAMPLE_RATE :: nat where "SAMPLE_RATE = 44100"
definition REC_BUFFER_SIZE :: nat where "REC_BUFFER_SIZE = 4096"
definition PLAY_BUFFER_SIZE :: nat where "PLAY_BUFFER_SIZE = 2048"
definition M_PI :: real where "M_PI = pi"

subsection \<open>The C library and C conversions\<close>

text \<open>
  Conversion of a double to an integer type truncates towards zero. C leaves the conversion
  undefined when the truncated value does not fit the type; \<open>double_to_Sint16\<close> wraps there,
  and the theorem on the output samples shows that the generator never leaves the range.
\<close>

definition double_to_int :: "real \<Rightarrow> int" where
  "double_to_int v = (if 0 \<le> v then \<lfloor>v\<rfloor> else \<lceil>v\<rceil>)"

type_synonym Sint16 = "16 word"

definition double_to_Sint16 :: "real \<Rightarrow> Sint16" where
  "double_to_Sint16 v = word_of_int (double_to_int v)"

text \<open>
  Rounding of a real to binary64, for values in the normal range: \<open>rne\<close> rounds to the nearest
  integer, a tie to the even one; \<open>round_double\<close> rounds to the nearest multiple of the unit
  in the last of the 53 places of the binade \<open>2^e \<le> |v| < 2^(e+1)\<close> that holds the value.
\<close>

definition rne :: "real \<Rightarrow> int" where
  "rne v = (let f = \<lfloor>v\<rfloor>; d = v - of_int f
            in if d < 1 / 2 then f else if 1 / 2 < d then f + 1
               else if even f then f else f + 1)"

definition round_double :: "real \<Rightarrow> real" where
  "round_double v =
     (if v = 0 then 0
      else let u = 2 powr (of_int \<lfloor>log 2 \<bar>v\<bar>\<rfloor> - 52) in u * of_int (rne (v / u)))"

text \<open>\<^verbatim>\<open>round\<close> of \<^verbatim>\<open>math.h\<close> rounds to the nearest integer, halves away from zero.\<close>

definition round_c :: "real \<Rightarrow> real" where
  "round_c v = (if 0 \<le> v then of_int \<lfloor>v + 1 / 2\<rfloor> else of_int \<lceil>v - 1 / 2\<rceil>)"

text \<open>\<^verbatim>\<open>fmod(a, b)\<close> is \<open>a - b * q\<close>, with \<open>q\<close> the quotient truncated towards zero.\<close>

definition fmod :: "real \<Rightarrow> real \<Rightarrow> real" where
  "fmod a b = a - b * of_int (double_to_int (a / b))"

definition fabs :: "real \<Rightarrow> real" where
  "fabs v = \<bar>v\<bar>"

definition log10 :: "real \<Rightarrow> real" where
  "log10 v = log 10 v"









subsection \<open>Types\<close>

datatype WaveformType = WAVE_SINE | WAVE_SQUARE | WAVE_SAWTOOTH | WAVE_TRIANGLE

record Complex_c =
  real_c :: real
  imag_c :: real

record PeakMarker =
  x_pos :: real
  db :: real
  frequency :: real

record ToneGenerator =
  is_on :: bool
  is_paused :: bool
  wave_type :: WaveformType
  sweep_time :: real
  sweep_up :: bool
  phase :: real
  current_freq :: real

record SDL_Rect =
  rect_x :: int
  rect_y :: int
  rect_w :: int
  rect_h :: int

record AppState =
  is_running :: bool
  is_paused :: bool
  trigger_lock_on :: bool
  auto_timebase_on :: bool
  rec_buffer :: "Sint16 list"
  peak_hold_magnitudes :: "real list"
  peak_marker :: PeakMarker
  squelch_threshold :: real
  visual_gain :: real
  scope_gain :: real
  scope_display_samples :: int
  generator :: ToneGenerator
  generator_button_rect :: SDL_Rect
  scope_panel_rect :: SDL_Rect
  spectrum_panel_rect :: SDL_Rect
  controls_panel_rect :: SDL_Rect

text \<open>The state of the loop of \<^verbatim>\<open>main\<close>: the global state and the local \<^verbatim>\<open>trigger_offset\<close>.\<close>

record MainLoop = AppState +
  trigger_offset :: int

text \<open>The initialiser of \<^verbatim>\<open>AppState\<close>; members it does not name are zero.\<close>

definition generator_init :: ToneGenerator where
  "generator_init = \<lparr> is_on = False, is_paused = False, wave_type = WAVE_SINE, sweep_time = 0,
     sweep_up = True, phase = 0, current_freq = 20 \<rparr>"

definition AppState_init :: AppState where
  "AppState_init = \<lparr> is_running = True, is_paused = False, trigger_lock_on = True,
     auto_timebase_on = True,
     rec_buffer = replicate REC_BUFFER_SIZE 0,
     peak_hold_magnitudes = replicate (REC_BUFFER_SIZE div 2) 0,
     peak_marker = \<lparr> x_pos = 0, db = 0, frequency = 0 \<rparr>,
     squelch_threshold = 500, visual_gain = 1, scope_gain = 1,
     scope_display_samples = 2048,
     generator = generator_init,
     generator_button_rect = \<lparr> rect_x = SCREEN_WIDTH - 160, rect_y = SCREEN_HEIGHT - 60,
       rect_w = 150, rect_h = 50 \<rparr>,
     scope_panel_rect = \<lparr> rect_x = 10, rect_y = 10, rect_w = 1004, rect_h = 285 \<rparr>,
     spectrum_panel_rect = \<lparr> rect_x = 10, rect_y = 305, rect_w = 1004, rect_h = 285 \<rparr>,
     controls_panel_rect = \<lparr> rect_x = 10, rect_y = 305, rect_w = 300, rect_h = 285 \<rparr> \<rparr>"

subsection \<open>Peak hold\<close>

definition reset_peak_hold :: "'a AppState_scheme \<Rightarrow> 'a AppState_scheme" where
  "reset_peak_hold st = st\<lparr> peak_hold_magnitudes :=
     fold (\<lambda>i hold. hold[i := - 1000]) [0..<REC_BUFFER_SIZE div 2] (peak_hold_magnitudes st) \<rparr>"

text \<open>The loop at the end of the analysis block: \<^verbatim>\<open>peak_hold_magnitudes[i] *= 0.9995\<close>.\<close>

definition decay_peak_hold :: "real list \<Rightarrow> real list" where
  "decay_peak_hold hold0 =
     fold (\<lambda>i hold. hold[i := hold ! i * 0.9995]) [0..<REC_BUFFER_SIZE div 2] hold0"

text \<open>\<^verbatim>\<open>main\<close> before its loop: the peak hold is reset and the trigger offset is 0.\<close>

definition main_init :: MainLoop where
  "main_init = AppState.extend (reset_peak_hold AppState_init) (MainLoop.fields 0)"

subsection \<open>Event handling\<close>

datatype SDL_Keycode =
  SDLK_p | SDLK_SPACE | SDLK_r | SDLK_t | SDLK_a | SDLK_w | SDLK_s
  | SDLK_UP | SDLK_DOWN | SDLK_RIGHT | SDLK_LEFT
  | SDLK_1 | SDLK_2 | SDLK_3 | SDLK_4 | SDLK_unbound

datatype SDL_Event = SDL_QUIT | SDL_KEYDOWN SDL_Keycode | SDL_MOUSEBUTTONDOWN int int | SDL_other

fun handle_key :: "SDL_Keycode \<Rightarrow> 'a AppState_scheme \<Rightarrow> 'a AppState_scheme" where
  "handle_key SDLK_p st = st\<lparr> AppState.is_paused := \<not> AppState.is_paused st \<rparr>"
| "handle_key SDLK_SPACE st =
     st\<lparr> generator := (generator st)\<lparr> ToneGenerator.is_paused :=
       \<not> ToneGenerator.is_paused (generator st) \<rparr> \<rparr>"
| "handle_key SDLK_r st = reset_peak_hold st"
| "handle_key SDLK_t st = st\<lparr> trigger_lock_on := \<not> trigger_lock_on st \<rparr>"
| "handle_key SDLK_a st = st\<lparr> auto_timebase_on := \<not> auto_timebase_on st \<rparr>"
| "handle_key SDLK_w st = st\<lparr> scope_gain := scope_gain st + 0.2 \<rparr>"
| "handle_key SDLK_s st =
     (let g = scope_gain st - 0.2 in st\<lparr> scope_gain := (if g < 0.1 then 0.1 else g) \<rparr>)"
| "handle_key SDLK_UP st = st\<lparr> squelch_threshold := squelch_threshold st + 50 \<rparr>"
| "handle_key SDLK_DOWN st =
     (let t = squelch_threshold st - 50 in st\<lparr> squelch_threshold := (if t < 0 then 0 else t) \<rparr>)"
| "handle_key SDLK_RIGHT st = st\<lparr> visual_gain := visual_gain st + 0.05 \<rparr>"
| "handle_key SDLK_LEFT st =
     (let g = visual_gain st - 0.05 in st\<lparr> visual_gain := (if g < 0 then 0 else g) \<rparr>)"
| "handle_key SDLK_1 st = st\<lparr> generator := (generator st)\<lparr> wave_type := WAVE_SINE \<rparr> \<rparr>"
| "handle_key SDLK_2 st = st\<lparr> generator := (generator st)\<lparr> wave_type := WAVE_SQUARE \<rparr> \<rparr>"
| "handle_key SDLK_3 st = st\<lparr> generator := (generator st)\<lparr> wave_type := WAVE_SAWTOOTH \<rparr> \<rparr>"
| "handle_key SDLK_4 st = st\<lparr> generator := (generator st)\<lparr> wave_type := WAVE_TRIANGLE \<rparr> \<rparr>"
| "handle_key SDLK_unbound st = st"

definition in_generator_button :: "'a AppState_scheme \<Rightarrow> int \<Rightarrow> int \<Rightarrow> bool" where
  "in_generator_button st ex ey =
     (let r = generator_button_rect st
      in ex \<ge> rect_x r \<and> ex \<le> rect_x r + rect_w r \<and> ey \<ge> rect_y r \<and> ey \<le> rect_y r + rect_h r)"

fun handle_event :: "SDL_Event \<Rightarrow> 'a AppState_scheme \<Rightarrow> 'a AppState_scheme" where
  "handle_event SDL_QUIT st = st\<lparr> is_running := False \<rparr>"
| "handle_event (SDL_KEYDOWN k) st = handle_key k st"
| "handle_event (SDL_MOUSEBUTTONDOWN ex ey) st =
     (if in_generator_button st ex ey
      then st\<lparr> generator := (generator st)\<lparr> is_on := \<not> is_on (generator st) \<rparr> \<rparr>
      else st)"
| "handle_event SDL_other st = st"

text \<open>The inner \<^verbatim>\<open>while (SDL_PollEvent(&e))\<close> loop on the events that are pending.\<close>

definition poll_events :: "SDL_Event list \<Rightarrow> 'a AppState_scheme \<Rightarrow> 'a AppState_scheme" where
  "poll_events es st = fold handle_event es st"

subsection \<open>The transform\<close>

text \<open>
  \<^verbatim>\<open>fft(x, n)\<close> works in place on the first \<open>n\<close> cells of \<open>x\<close>; the model returns the array.
  The last loop writes \<open>x[k]\<close> and \<open>x[k + n/2]\<close> from the transformed halves.
\<close>

definition fft_combine ::
  "Complex_c list \<Rightarrow> Complex_c list \<Rightarrow> nat \<Rightarrow> nat \<Rightarrow> Complex_c list \<Rightarrow> Complex_c list" where
  "fft_combine even_c odd_c n k x =
     (let angle = - 2 * M_PI * real k / real n;
          t = \<lparr> real_c = cos angle * real_c (odd_c ! k) - sin angle * imag_c (odd_c ! k),
                imag_c = cos angle * imag_c (odd_c ! k) + sin angle * real_c (odd_c ! k) \<rparr>;
          x1 = x[k := \<lparr> real_c = real_c (even_c ! k) + real_c t,
                          imag_c = imag_c (even_c ! k) + imag_c t \<rparr>]
      in x1[k + n div 2 := \<lparr> real_c = real_c (even_c ! k) - real_c t,
                              imag_c = imag_c (even_c ! k) - imag_c t \<rparr>])"

function fft :: "Complex_c list \<Rightarrow> nat \<Rightarrow> Complex_c list" where
  "fft x n =
     (if n \<le> 1 then x
      else
        let even_c = fft (map (\<lambda>i. x ! (2 * i)) [0..<n div 2]) (n div 2);
            odd_c = fft (map (\<lambda>i. x ! (2 * i + 1)) [0..<n div 2]) (n div 2)
        in fold (fft_combine even_c odd_c n) [0..<n div 2] x)"
  by pat_completeness auto
termination
  by (relation "measure (\<lambda>(x, n). n)") auto

declare fft.simps [simp del]

subsection \<open>The analysis block of the main loop\<close>

text \<open>The sum of squares of the capture buffer and its root mean square.\<close>

definition compute_rms :: "Sint16 list \<Rightarrow> real" where
  "compute_rms buf =
     sqrt (fold (\<lambda>i rms. rms + real_of_int (sint (buf ! i)) * real_of_int (sint (buf ! i)))
             [0..<REC_BUFFER_SIZE] 0 / real REC_BUFFER_SIZE)"

text \<open>
  The test of the trigger scan at index \<open>i\<close>, and the scan: the loop from \<open>i\<close> up to
  \<open>REC_BUFFER_SIZE - 2\<close> that stops at the first rising zero crossing; \<open>offset\<close> is the
  value \<^verbatim>\<open>trigger_offset\<close> has when no crossing is found.
\<close>

definition rising_crossing :: "Sint16 list \<Rightarrow> nat \<Rightarrow> bool" where
  "rising_crossing buf i = (sint (buf ! (i - 1)) < 0 \<and> sint (buf ! i) \<ge> 0)"

function trigger_scan :: "Sint16 list \<Rightarrow> nat \<Rightarrow> int \<Rightarrow> int" where
  "trigger_scan buf i offset =
     (if i < REC_BUFFER_SIZE - 1
      then (if rising_crossing buf i then int i
            else trigger_scan buf (i + 1) offset)
      else offset)"
  by pat_completeness auto
termination
  by (relation "measure (\<lambda>(buf, i, offset). REC_BUFFER_SIZE - 1 - i)") auto

declare trigger_scan.simps [simp del]

definition hann_window :: "Sint16 list \<Rightarrow> Complex_c list" where
  "hann_window buf =
     map (\<lambda>i. let hann = 0.5 * (1 - cos (2 * M_PI * real i / real (REC_BUFFER_SIZE - 1)))
              in \<lparr> real_c = real_of_int (sint (buf ! i)) * hann, imag_c = 0 \<rparr>)
       [0..<REC_BUFFER_SIZE]"

text \<open>The level of one bin and one step of the peak search, which also raises the peak hold.\<close>

definition bin_db :: "Complex_c \<Rightarrow> real" where
  "bin_db c =
     (let mag = sqrt (real_c c * real_c c + imag_c c * imag_c c)
      in 20 * log10 (mag + 1 / 10 ^ 9))"

definition peak_step :: "Complex_c list \<Rightarrow> nat \<Rightarrow> real \<times> nat \<times> real list \<Rightarrow> real \<times> nat \<times> real list" where
  "peak_step fft_input i acc =
     (case acc of (max_db, peak_index, hold) \<Rightarrow>
        let d = bin_db (fft_input ! i);
            (max_db1, peak_index1) = (if d > max_db then (d, i) else (max_db, peak_index));
            hold1 = (if d > hold ! i then hold[i := d] else hold)
        in (max_db1, peak_index1, hold1))"

definition peak_search :: "Complex_c list \<Rightarrow> real list \<Rightarrow> real \<times> nat \<times> real list" where
  "peak_search fft_input hold =
     fold (peak_step fft_input) [1..<REC_BUFFER_SIZE div 2] (- 1000, 0, hold)"

definition max_freq :: real where
  "max_freq = real SAMPLE_RATE / 2"

definition target_freq_of :: "nat \<Rightarrow> real" where
  "target_freq_of peak_index = real peak_index / (real REC_BUFFER_SIZE / 2) * max_freq"

text \<open>The auto timebase: the conditional expression, the two clamps and the smoothing.\<close>

definition timebase_target :: "real \<Rightarrow> int" where
  "timebase_target target_freq =
     double_to_int (if target_freq > 0 then 4 * (real SAMPLE_RATE / target_freq) else 2048)"

definition auto_timebase :: "real \<Rightarrow> int \<Rightarrow> int" where
  "auto_timebase target_freq samples =
     (let t0 = timebase_target target_freq;
          t1 = (if t0 < 100 then 100 else t0);
          t2 = (if t1 > int REC_BUFFER_SIZE then int REC_BUFFER_SIZE else t1)
      in double_to_int (0.95 * real_of_int samples + 0.05 * real_of_int t2))"

definition log_peak_freq :: "real \<Rightarrow> real" where
  "log_peak_freq target_freq = log10 (if target_freq > 0 then target_freq else 1)"

definition target_x_of :: "real \<Rightarrow> SDL_Rect \<Rightarrow> real" where
  "target_x_of target_freq rect =
     (let min_log_freq = log10 20; max_log_freq = log10 max_freq;
          log_freq_range = max_log_freq - min_log_freq
      in real_of_int (rect_x rect)
         + ((log_peak_freq target_freq - min_log_freq) / log_freq_range) * real_of_int (rect_w rect))"

text \<open>The branch taken when the RMS is above the squelch threshold.\<close>

definition signal_branch :: "MainLoop \<Rightarrow> MainLoop" where
  "signal_branch st =
     (let offset = (if trigger_lock_on st then trigger_scan (rec_buffer st) 1 (trigger_offset st)
                    else 0);
          fft_input = fft (hann_window (rec_buffer st)) REC_BUFFER_SIZE;
          (max_db, peak_index, hold) = peak_search fft_input (peak_hold_magnitudes st);
          target_freq = target_freq_of peak_index;
          samples = (if auto_timebase_on st then auto_timebase target_freq (scope_display_samples st)
                     else 2048);
          target_x = target_x_of target_freq (spectrum_panel_rect st);
          pm = peak_marker st
      in st\<lparr> trigger_offset := offset,
              peak_hold_magnitudes := hold,
              scope_display_samples := samples,
              peak_marker := \<lparr> x_pos = 0.7 * x_pos pm + 0.3 * target_x,
                               db = 0.7 * db pm + 0.3 * max_db,
                               frequency = target_freq \<rparr> \<rparr>)"

text \<open>The branch taken otherwise: only the marker decays.\<close>

definition squelch_branch :: "MainLoop \<Rightarrow> MainLoop" where
  "squelch_branch st =
     (let pm = (peak_marker st)\<lparr> db := db (peak_marker st) * 0.99 \<rparr>
      in st\<lparr> peak_marker := (if db pm < 20 then pm\<lparr> db := 20, frequency := 0 \<rparr> else pm) \<rparr>)"

definition analysis :: "MainLoop \<Rightarrow> MainLoop" where
  "analysis st =
     (if AppState.is_paused st then st
      else
        let rms = compute_rms (rec_buffer st);
            st1 = (if rms > squelch_threshold st then signal_branch st else squelch_branch st)
        in st1\<lparr> peak_hold_magnitudes := decay_peak_hold (peak_hold_magnitudes st1) \<rparr>)"

text \<open>
  \<^verbatim>\<open>recording_callback\<close>: unless the analyser is paused, the delivered block overwrites the
  front of the capture buffer, at most the whole buffer (counted in samples here).
\<close>

definition recording_callback :: "Sint16 list \<Rightarrow> 'a AppState_scheme \<Rightarrow> 'a AppState_scheme" where
  "recording_callback stream st =
     (if AppState.is_paused st then st
      else let n = (if length stream > REC_BUFFER_SIZE then REC_BUFFER_SIZE else length stream)
           in st\<lparr> rec_buffer := take n stream @ drop n (rec_buffer st) \<rparr>)"

text \<open>A run of analysis cycles, each on a freshly delivered block.\<close>

definition cycle :: "Sint16 list \<Rightarrow> MainLoop \<Rightarrow> MainLoop" where
  "cycle stream st = analysis (recording_callback stream st)"

definition run_cycles :: "Sint16 list list \<Rightarrow> MainLoop \<Rightarrow> MainLoop" where
  "run_cycles streams st = fold cycle streams st"

text \<open>Every cycle of the run is an analysis cycle whose RMS does not exceed the squelch.\<close>

fun all_squelched :: "Sint16 list list \<Rightarrow> MainLoop \<Rightarrow> bool" where
  "all_squelched [] st = True"
| "all_squelched (stream # streams) st =
     (let st1 = recording_callback stream st
      in \<not> AppState.is_paused st1
         \<and> compute_rms (rec_buffer st1) \<le> squelch_threshold st1
         \<and> all_squelched streams (analysis st1))"

text \<open>
  One round of the loop of \<^verbatim>\<open>main\<close> without the drawing: the pending events are handled,
  then the analysis block runs. \<open>main_loop\<close> runs one round per list of pending events.
\<close>

definition main_iteration :: "SDL_Event list \<Rightarrow> MainLoop \<Rightarrow> MainLoop" where
  "main_iteration es st = analysis (poll_events es st)"

definition main_loop :: "SDL_Event list list \<Rightarrow> MainLoop \<Rightarrow> MainLoop" where
  "main_loop ess st = fold main_iteration ess st"

subsection \<open>The tone generator\<close>

text \<open>The \<^verbatim>\<open>switch\<close> on the waveform: the value before scaling.\<close>

fun synth_sample :: "WaveformType \<Rightarrow> real \<Rightarrow> real" where
  "synth_sample WAVE_SINE ph = sin ph"
| "synth_sample WAVE_SQUARE ph = (if sin ph \<ge> 0 then 1 else - 1)"
| "synth_sample WAVE_SAWTOOTH ph = (fmod ph (2 * M_PI) / M_PI) - 1"
| "synth_sample WAVE_TRIANGLE ph = 2 * fabs (fmod (ph / (2 * M_PI)) 1 * 2 - 1) - 1"

definition sweep_duration_s :: real where "sweep_duration_s = 20"
definition start_freq :: real where "start_freq = 20"
definition end_freq :: real where "end_freq = 5000"

text \<open>The double that the constant expression \<^verbatim>\<open>1.0 / SAMPLE_RATE\<close> denotes.\<close>

definition sweep_tick :: real where
  "sweep_tick = round_double (1 / real SAMPLE_RATE)"

text \<open>
  The body of \<^verbatim>\<open>if (!AppState.generator.is_paused)\<close>; the sum that is stored in
  \<^verbatim>\<open>sweep_time\<close> is rounded to a double.
\<close>

definition sweep_step :: "ToneGenerator \<Rightarrow> ToneGenerator" where
  "sweep_step g =
     (let sweep_progress = sweep_time g / sweep_duration_s;
          g1 = g\<lparr> current_freq :=
                 (if sweep_up g then start_freq + (end_freq - start_freq) * sweep_progress
                  else end_freq - (end_freq - start_freq) * sweep_progress) \<rparr>;
          g2 = g1\<lparr> sweep_time := round_double (sweep_time g1 + sweep_tick) \<rparr>
      in if sweep_time g2 \<ge> sweep_duration_s
         then g2\<lparr> sweep_time := 0, sweep_up := \<not> sweep_up g2 \<rparr>
         else g2)"

text \<open>One round of the sample loop: the new generator state and the sample written.\<close>

definition gen_sample :: "ToneGenerator \<Rightarrow> ToneGenerator \<times> Sint16" where
  "gen_sample g =
     (let g1 = (if \<not> ToneGenerator.is_paused g then sweep_step g else g);
          sample = synth_sample (wave_type g1) (phase g1);
          out = double_to_Sint16 (12000 * sample)
      in (g1\<lparr> phase := phase g1 + 2 * M_PI * current_freq g1 / real SAMPLE_RATE \<rparr>, out))"

definition playback_step :: "nat \<Rightarrow> ToneGenerator \<times> Sint16 list \<Rightarrow> ToneGenerator \<times> Sint16 list" where
  "playback_step i acc =
     (case acc of (g, buffer) \<Rightarrow> case gen_sample g of (g1, out) \<Rightarrow> (g1, buffer[i := out]))"

text \<open>\<^verbatim>\<open>playback_callback\<close> on a stream of \<open>len\<close> bytes, seen as an array of samples.\<close>

definition playback_callback :: "Sint16 list \<Rightarrow> nat \<Rightarrow> ToneGenerator \<Rightarrow> ToneGenerator \<times> Sint16 list" where
  "playback_callback stream len g =
     (let num_samples = len div 2;
          (g1, buffer) = fold playback_step [0..<num_samples] (g, stream)
      in ((if phase g1 > 2 * M_PI then g1\<lparr> phase := phase g1 - 2 * M_PI \<rparr> else g1), buffer))"

subsection \<open>The note name\<close>




subsection \<open>Predicates and states used in the statements\<close>

text \<open>The ranges of the three scalars that the keyboard adjusts.\<close>

definition controls_ok :: "'a AppState_scheme \<Rightarrow> bool" where
  "controls_ok st = (squelch_threshold st \<ge> 0 \<and> visual_gain st \<ge> 0 \<and> scope_gain st \<ge> 0.1)"

text \<open>A loud capture buffer with its first rising crossing at index 1.\<close>

definition loud_crossing_state :: MainLoop where
  "loud_crossing_state = main_init\<lparr> rec_buffer := (- 1000) # replicate (REC_BUFFER_SIZE - 1) 1000 \<rparr>"

text \<open>A silent buffer, the trigger lock switched off after an earlier cycle left the offset at 5.\<close>

definition quiet_unlocked_state :: MainLoop where
  "quiet_unlocked_state = main_init\<lparr> trigger_lock_on := False, trigger_offset := 5 \<rparr>"

text \<open>A buffer below the squelch threshold with a rising crossing at index 1.\<close>

definition quiet_crossing_state :: MainLoop where
  "quiet_crossing_state = main_init\<lparr> rec_buffer := (- 1) # replicate (REC_BUFFER_SIZE - 1) 0 \<rparr>"

text \<open>The generator after one round and after \<open>n\<close> rounds of the sample loop.\<close>

definition gen_next :: "ToneGenerator \<Rightarrow> ToneGenerator" where
  "gen_next g = fst (gen_sample g)"

definition gen_state :: "nat \<Rightarrow> ToneGenerator \<Rightarrow> ToneGenerator" where
  "gen_state n g = (gen_next ^^ n) g"

text \<open>
  A run of playback callbacks, of the given lengths in bytes, each on a fresh stream; the
  number of samples they generate together.
\<close>

definition playback_run :: "nat list \<Rightarrow> ToneGenerator \<Rightarrow> ToneGenerator" where
  "playback_run lens g =
     fold (\<lambda>len g1. fst (playback_callback (replicate (len div 2) 0) len g1)) lens g"

definition total_samples :: "nat list \<Rightarrow> nat" where
  "total_samples lens = sum_list (map (\<lambda>len. len div 2) lens)"

text \<open>The ranges the generator keeps: the phase never goes negative.\<close>

definition gen_ok :: "ToneGenerator \<Rightarrow> bool" where
  "gen_ok g = (0 \<le> phase g \<and> 0 \<le> sweep_time g \<and> sweep_time g \<le> sweep_duration_s
               \<and> 0 \<le> current_freq g)"

text \<open>The generator as initialised, after key \<^verbatim>\<open>4\<close> selected the triangle wave.\<close>

definition triangle_init :: ToneGenerator where
  "triangle_init = generator_init\<lparr> wave_type := WAVE_TRIANGLE \<rparr>"

text \<open>
  The sweep timer after \<open>k\<close> unpaused samples from 0, were it never reset: \<open>k\<close> rounded
  additions of the tick.
\<close>

definition timer :: "nat \<Rightarrow> real" where
  "timer k = ((\<lambda>t. round_double (t + sweep_tick)) ^^ k) 0"

text \<open>
  The sweep after \<open>p\<close> unpaused samples from an ascending start at elapsed time 0. The timer
  first reaches the sweep duration with its 882001st addition, so a half sweep lasts 882001
  samples: the direction is up in the even half sweeps and the elapsed time is the timer at
  the position within the half sweep. \<open>freq_at p\<close> is the frequency that the sweep formula
  gives at that position.
\<close>

definition sweep_pos :: "nat \<Rightarrow> ToneGenerator \<Rightarrow> bool" where
  "sweep_pos p g = (\<not> ToneGenerator.is_paused g \<and> sweep_up g = even (p div 882001)
                    \<and> sweep_time g = timer (p mod 882001))"

definition freq_at :: "nat \<Rightarrow> real" where
  "freq_at p = (if even (p div 882001) then 20 + 4980 * (timer (p mod 882001) / 20)
                else 5000 - 4980 * (timer (p mod 882001) / 20))"

text \<open>What the peak search keeps once its first bin is done.\<close>

definition peak_ok :: "real \<times> nat \<times> real list \<Rightarrow> bool" where
  "peak_ok acc = (case acc of (max_db, peak_index, hold) \<Rightarrow>
     - 180 \<le> max_db \<and> 1 \<le> peak_index \<and> peak_index < REC_BUFFER_SIZE div 2)"

text \<open>
  The value of a \<^verbatim>\<open>Complex\<close> struct as a complex number, and the discrete Fourier
  transform as the specification writes it: \<open>X[k]\<close> is the sum over \<open>j\<close> of
  \<open>x[j] * e^(-2 pi i j k / n)\<close>. The unit impulse of length \<open>n\<close> is \<open>[1, 0, ..., 0]\<close>.
\<close>

definition to_complex :: "Complex_c \<Rightarrow> complex" where
  "to_complex c = Complex (real_c c) (imag_c c)"

definition dft :: "complex list \<Rightarrow> nat \<Rightarrow> complex" where
  "dft xs k = (\<Sum>j<length xs. xs ! j * cis (- 2 * pi * real j * real k / real (length xs)))"

definition impulse :: "nat \<Rightarrow> Complex_c list" where
  "impulse n = \<lparr> real_c = 1, imag_c = 0 \<rparr> # replicate (n - 1) \<lparr> real_c = 0, imag_c = 0 \<rparr>"

section \<open>Array loops\<close>

lemma fold_update_pointwise:
  "n \<le> length xs \<Longrightarrow>
   fold (\<lambda>i h. h[i := f (h ! i)]) [0..<n] xs = map f (take n xs) @ drop n xs"
proof (induction n)
  case 0
  then show ?case by simp
next
  case (Suc n)
  then have n: "n < length xs" by simp
  have "fold (\<lambda>i h. h[i := f (h ! i)]) [0..<Suc n] xs
        = (map f (take n xs) @ drop n xs)[n := f ((map f (take n xs) @ drop n xs) ! n)]"
    using Suc by simp
  also have "\<dots> = map f (take n xs) @ (drop n xs)[0 := f (xs ! n)]"
    using n by (simp add: list_update_append nth_append)
  also have "\<dots> = map f (take (Suc n) xs) @ drop (Suc n) xs"
    using n by (simp add: take_Suc_conv_app_nth Cons_nth_drop_Suc [symmetric])
  finally show ?case .
qed

lemma fold_add_sum:
  "fold (\<lambda>i acc. acc + f i) [0..<n] (a::real) = a + (\<Sum>i<n. f i)"
  by (induction n) simp_all

section \<open>Peak hold: reset and decay\<close>

lemma decay_peak_hold_map:
  "length hold = REC_BUFFER_SIZE div 2 \<Longrightarrow> decay_peak_hold hold = map (\<lambda>v. v * 0.9995) hold"
  unfolding decay_peak_hold_def
  using fold_update_pointwise [of "REC_BUFFER_SIZE div 2" hold "\<lambda>v. v * 0.9995"] by simp

lemma reset_peak_hold_replicate:
  "length (peak_hold_magnitudes st) = REC_BUFFER_SIZE div 2 \<Longrightarrow>
   peak_hold_magnitudes (reset_peak_hold st) = replicate (REC_BUFFER_SIZE div 2) (- 1000)"
  unfolding reset_peak_hold_def
  using fold_update_pointwise [of "REC_BUFFER_SIZE div 2" "peak_hold_magnitudes st" "\<lambda>v. - 1000"]
  by (simp add: map_replicate_const)

lemma length_decay_peak_hold [simp]: "length (decay_peak_hold hold) = length hold"
proof -
  have "length (fold (\<lambda>i h. h[i := h ! i * 0.9995]) is hold) = length hold" for "is"
    by (induction "is" arbitrary: hold) simp_all
  then show ?thesis by (simp add: decay_peak_hold_def)
qed

text \<open>The state in which the loop of \<^verbatim>\<open>main\<close> starts.\<close>

lemma main_init_sel:
  "rec_buffer main_init = replicate REC_BUFFER_SIZE 0"
  "squelch_threshold main_init = 500"
  "\<not> AppState.is_paused main_init"
  "trigger_offset main_init = 0"
  "peak_marker main_init = \<lparr> x_pos = 0, db = 0, frequency = 0 \<rparr>"
  "scope_display_samples main_init = 2048"
  "peak_hold_magnitudes main_init = replicate (REC_BUFFER_SIZE div 2) (- 1000)"
  "visual_gain main_init = 1" "scope_gain main_init = 1"
  "trigger_lock_on main_init" "generator main_init = generator_init"
proof -
  have len: "length (peak_hold_magnitudes AppState_init) = REC_BUFFER_SIZE div 2"
    by (simp add: AppState_init_def)
  show "peak_hold_magnitudes main_init = replicate (REC_BUFFER_SIZE div 2) (- 1000)"
    using reset_peak_hold_replicate [OF len]
    by (simp add: main_init_def AppState.defs MainLoop.defs)
qed (simp_all add: main_init_def AppState.defs MainLoop.defs reset_peak_hold_def AppState_init_def)

lemma compute_rms_sum:
  "compute_rms buf =
     sqrt ((\<Sum>i<REC_BUFFER_SIZE. (real_of_int (sint (buf ! i)))\<^sup>2) / real REC_BUFFER_SIZE)"
  by (simp add: compute_rms_def fold_add_sum power2_eq_square)

lemma compute_rms_silence: "compute_rms (replicate REC_BUFFER_SIZE 0) = 0"
  by (simp add: compute_rms_sum)

lemma squelch_cycle_hold:
  assumes "\<not> AppState.is_paused st" "compute_rms (rec_buffer st) \<le> squelch_threshold st"
  shows "peak_hold_magnitudes (analysis st) = decay_peak_hold (peak_hold_magnitudes st)"
  using assms by (simp add: analysis_def squelch_branch_def Let_def)

lemma recording_callback_hold [simp]:
  "peak_hold_magnitudes (recording_callback stream st) = peak_hold_magnitudes st"
  by (simp add: recording_callback_def Let_def)

lemma run_squelched_hold:
  "all_squelched streams st \<Longrightarrow> length (peak_hold_magnitudes st) = REC_BUFFER_SIZE div 2 \<Longrightarrow>
   peak_hold_magnitudes (run_cycles streams st)
     = map (\<lambda>v. v * 0.9995 ^ length streams) (peak_hold_magnitudes st)"
proof (induction streams arbitrary: st)
  case Nil
  then show ?case by (simp add: run_cycles_def)
next
  case (Cons s ss)
  let ?st1 = "recording_callback s st"
  from Cons.prems have sq: "\<not> AppState.is_paused ?st1"
      "compute_rms (rec_buffer ?st1) \<le> squelch_threshold ?st1"
      "all_squelched ss (analysis ?st1)"
    by (simp_all add: Let_def)
  have h: "peak_hold_magnitudes (analysis ?st1) = map (\<lambda>v. v * 0.9995) (peak_hold_magnitudes st)"
    using squelch_cycle_hold [OF sq(1,2)] decay_peak_hold_map Cons.prems(2) by simp
  have "peak_hold_magnitudes (run_cycles ss (analysis ?st1))
          = map (\<lambda>v. v * 0.9995 ^ length ss) (peak_hold_magnitudes (analysis ?st1))"
    using Cons.IH [OF sq(3)] h Cons.prems(2) by simp
  then show ?case
    by (simp add: run_cycles_def cycle_def h mult.assoc)
qed

lemma silent_cycle_squelched:
  "all_squelched [replicate REC_BUFFER_SIZE 0] main_init"
  by (simp add: recording_callback_def main_init_sel compute_rms_silence Let_def)

text \<open>
  Claim C2, as the code has it. \<^verbatim>\<open>reset_peak_hold\<close> sets every entry of the peak-hold
  buffer to exactly -1000. Over a run of analysis cycles whose RMS does not exceed the
  squelch threshold, each cycle multiplies every entry by 0.9995, so after \<open>k\<close> cycles an entry
  is its old value times \<open>0.9995 ^ k\<close>: an entry that is not negative does not increase, an
  entry that is not positive does not decrease, and an entry that is at least -1000 stays
  at least -1000.
\<close>

theorem peak_hold_reset_and_decay:
  assumes len: "length (peak_hold_magnitudes st) = REC_BUFFER_SIZE div 2"
    and sq: "all_squelched streams st"
  shows "peak_hold_magnitudes (reset_peak_hold st) = replicate (REC_BUFFER_SIZE div 2) (- 1000)
    \<and> (\<forall>i < REC_BUFFER_SIZE div 2.
          peak_hold_magnitudes (run_cycles streams st) ! i
            = peak_hold_magnitudes st ! i * 0.9995 ^ length streams
        \<and> (0 \<le> peak_hold_magnitudes st ! i \<longrightarrow>
             peak_hold_magnitudes (run_cycles streams st) ! i \<le> peak_hold_magnitudes st ! i)
        \<and> (peak_hold_magnitudes st ! i \<le> 0 \<longrightarrow>
             peak_hold_magnitudes st ! i \<le> peak_hold_magnitudes (run_cycles streams st) ! i)
        \<and> (- 1000 \<le> peak_hold_magnitudes st ! i \<longrightarrow>
             - 1000 \<le> peak_hold_magnitudes (run_cycles streams st) ! i))"
proof (intro conjI allI impI)
  show "peak_hold_magnitudes (reset_peak_hold st) = replicate (REC_BUFFER_SIZE div 2) (- 1000)"
    by (rule reset_peak_hold_replicate [OF len])
next
  fix i assume i: "i < REC_BUFFER_SIZE div 2"
  let ?c = "(0.9995::real) ^ length streams"
  have c: "0 \<le> ?c" "?c \<le> 1"
    by (simp_all add: power_le_one)
  have eq: "peak_hold_magnitudes (run_cycles streams st) ! i = peak_hold_magnitudes st ! i * ?c"
    using run_squelched_hold [OF sq len] i len by simp
  show "peak_hold_magnitudes (run_cycles streams st) ! i
            = peak_hold_magnitudes st ! i * 0.9995 ^ length streams"
    by (rule eq)
  { assume "0 \<le> peak_hold_magnitudes st ! i"
    then show "peak_hold_magnitudes (run_cycles streams st) ! i \<le> peak_hold_magnitudes st ! i"
      unfolding eq using c by (simp add: mult_left_le) }
  { assume neg: "peak_hold_magnitudes st ! i \<le> 0"
    then show "peak_hold_magnitudes st ! i \<le> peak_hold_magnitudes (run_cycles streams st) ! i"
      unfolding eq using c mult_left_mono_neg [of ?c 1 "peak_hold_magnitudes st ! i"] by simp }
  { assume lo: "- 1000 \<le> peak_hold_magnitudes st ! i"
    show "- 1000 \<le> peak_hold_magnitudes (run_cycles streams st) ! i"
    proof (cases "0 \<le> peak_hold_magnitudes st ! i")
      case True
      then have "0 \<le> peak_hold_magnitudes st ! i * ?c" using c by simp
      then show ?thesis unfolding eq by simp
    next
      case False
      then have "peak_hold_magnitudes st ! i \<le> peak_hold_magnitudes st ! i * ?c"
        using c mult_left_mono_neg [of ?c 1 "peak_hold_magnitudes st ! i"] by simp
      with lo show ?thesis unfolding eq by simp
    qed }
qed

text \<open>
  The theorem at the start state of \<^verbatim>\<open>main\<close> and one cycle on a silent block: entry 7
  goes from -1000 to -999.5.
\<close>

theorem peak_hold_reset_and_decay_witness:
  "length (peak_hold_magnitudes main_init) = REC_BUFFER_SIZE div 2
   \<and> all_squelched [replicate REC_BUFFER_SIZE 0] main_init
   \<and> peak_hold_magnitudes (reset_peak_hold main_init) = replicate (REC_BUFFER_SIZE div 2) (- 1000)
   \<and> peak_hold_magnitudes (run_cycles [replicate REC_BUFFER_SIZE 0] main_init) ! 7 = - 999.5
   \<and> - 1000 \<le> peak_hold_magnitudes (run_cycles [replicate REC_BUFFER_SIZE 0] main_init) ! 7"
proof -
  have len: "length (peak_hold_magnitudes main_init) = REC_BUFFER_SIZE div 2"
    by (simp add: main_init_sel)
  have i: "7 < REC_BUFFER_SIZE div 2" by (simp add: REC_BUFFER_SIZE_def)
  have v: "peak_hold_magnitudes main_init ! 7 = - 1000"
    using i by (simp add: main_init_sel)
  note main = peak_hold_reset_and_decay [OF len silent_cycle_squelched]
  from main [THEN conjunct2, rule_format, OF i] main [THEN conjunct1] v
  show ?thesis using len silent_cycle_squelched by simp
qed

text \<open>
  Claim C2 as stated fails: after a reset, one squelched cycle raises entry 0 from -1000 to
  -999.5, so the entry is not non-increasing.
\<close>

theorem peak_hold_increases_counterexample:
  "all_squelched [replicate REC_BUFFER_SIZE 0] (reset_peak_hold main_init)
   \<and> peak_hold_magnitudes (reset_peak_hold main_init) ! 0 = - 1000
   \<and> peak_hold_magnitudes (run_cycles [replicate REC_BUFFER_SIZE 0] (reset_peak_hold main_init)) ! 0
       = - 999.5
   \<and> \<not> peak_hold_magnitudes (run_cycles [replicate REC_BUFFER_SIZE 0] (reset_peak_hold main_init)) ! 0
       \<le> peak_hold_magnitudes (reset_peak_hold main_init) ! 0"
proof -
  let ?st = "reset_peak_hold main_init"
  have len0: "length (peak_hold_magnitudes main_init) = REC_BUFFER_SIZE div 2"
    by (simp add: main_init_sel)
  have hold: "peak_hold_magnitudes ?st = replicate (REC_BUFFER_SIZE div 2) (- 1000)"
    by (rule reset_peak_hold_replicate [OF len0])
  have sq: "all_squelched [replicate REC_BUFFER_SIZE 0] ?st"
    by (simp add: recording_callback_def reset_peak_hold_def main_init_sel compute_rms_silence Let_def)
  have len: "length (peak_hold_magnitudes ?st) = REC_BUFFER_SIZE div 2"
    by (simp add: hold)
  have "peak_hold_magnitudes (run_cycles [replicate REC_BUFFER_SIZE 0] ?st) ! 0 = - 999.5"
    using run_squelched_hold [OF sq len] by (simp add: hold REC_BUFFER_SIZE_def)
  then show ?thesis using sq by (simp add: hold REC_BUFFER_SIZE_def)
qed

section \<open>Control surface\<close>

lemma handle_key_controls_ok: "controls_ok st \<Longrightarrow> controls_ok (handle_key k st)"
  by (cases k) (simp_all add: controls_ok_def reset_peak_hold_def Let_def)

lemma handle_event_controls_ok:
  assumes "controls_ok st"
  shows "controls_ok (handle_event e st)"
proof (cases e)
  case (SDL_KEYDOWN k)
  then show ?thesis using assms by (simp add: handle_key_controls_ok)
qed (use assms in \<open>simp_all add: controls_ok_def\<close>)

lemma poll_events_controls_ok: "controls_ok st \<Longrightarrow> controls_ok (poll_events es st)"
  unfolding poll_events_def
  by (induction es arbitrary: st) (simp_all add: handle_event_controls_ok)

lemma main_init_controls_ok: "controls_ok main_init"
  by (simp add: controls_ok_def main_init_sel)

lemma analysis_controls_ok: "controls_ok st \<Longrightarrow> controls_ok (analysis st)"
  by (simp add: controls_ok_def analysis_def signal_branch_def squelch_branch_def Let_def
      split: prod.splits)

lemma main_loop_controls_ok: "controls_ok st \<Longrightarrow> controls_ok (main_loop ess st)"
  unfolding main_loop_def
  by (induction ess arbitrary: st)
     (simp_all add: main_iteration_def analysis_controls_ok poll_events_controls_ok)

text \<open>
  Claim C9. After any sequence of events handled from the start state of \<^verbatim>\<open>main\<close>, and
  after any number of rounds of its loop, the squelch threshold and the visual gain are at
  least 0 and the scope gain is at least 0.1. No update is rejected: every key press yields
  the next state, a decrement stores the decremented value clamped to the bound (the maximum
  of the two), an increment stores the incremented value.
\<close>

theorem controls_stay_in_range:
  "controls_ok (poll_events es main_init)
   \<and> controls_ok (main_loop ess main_init)
   \<and> squelch_threshold (handle_event (SDL_KEYDOWN SDLK_DOWN) st) = max 0 (squelch_threshold st - 50)
   \<and> visual_gain (handle_event (SDL_KEYDOWN SDLK_LEFT) st) = max 0 (visual_gain st - 0.05)
   \<and> scope_gain (handle_event (SDL_KEYDOWN SDLK_s) st) = max 0.1 (scope_gain st - 0.2)
   \<and> squelch_threshold (handle_event (SDL_KEYDOWN SDLK_UP) st) = squelch_threshold st + 50
   \<and> visual_gain (handle_event (SDL_KEYDOWN SDLK_RIGHT) st) = visual_gain st + 0.05
   \<and> scope_gain (handle_event (SDL_KEYDOWN SDLK_w) st) = scope_gain st + 0.2"
  using poll_events_controls_ok [OF main_init_controls_ok, of es]
    main_loop_controls_ok [OF main_init_controls_ok, of ess]
  by (simp add: Let_def max_def)

text \<open>Five presses of \<^verbatim>\<open>S\<close> from the start state: the scope gain stops at 0.1.\<close>

theorem controls_stay_in_range_witness:
  "controls_ok (poll_events [SDL_KEYDOWN SDLK_s, SDL_KEYDOWN SDLK_s, SDL_KEYDOWN SDLK_s,
       SDL_KEYDOWN SDLK_s, SDL_KEYDOWN SDLK_s] main_init)
   \<and> scope_gain (poll_events [SDL_KEYDOWN SDLK_s, SDL_KEYDOWN SDLK_s, SDL_KEYDOWN SDLK_s,
       SDL_KEYDOWN SDLK_s, SDL_KEYDOWN SDLK_s] main_init) = 0.1"
  using controls_stay_in_range [where es = "[SDL_KEYDOWN SDLK_s, SDL_KEYDOWN SDLK_s,
       SDL_KEYDOWN SDLK_s, SDL_KEYDOWN SDLK_s, SDL_KEYDOWN SDLK_s]" and ess = "[]" and st = main_init]
  by (simp add: poll_events_def main_init_sel Let_def)

section \<open>Trigger detection\<close>

lemma trigger_scan_none:
  "(\<forall>j. i \<le> j \<and> j < REC_BUFFER_SIZE - 1 \<longrightarrow> \<not> rising_crossing buf j) \<Longrightarrow>
   trigger_scan buf i offset = offset"
proof (induction buf i offset rule: trigger_scan.induct)
  case (1 buf i offset)
  show ?case
  proof (cases "i < REC_BUFFER_SIZE - 1")
    case True
    with "1.prems" have nc: "\<not> rising_crossing buf i" by simp
    from "1.IH" [OF True nc] "1.prems" have "trigger_scan buf (i + 1) offset = offset" by simp
    with True nc show ?thesis by (subst trigger_scan.simps) simp
  next
    case False
    then show ?thesis by (subst trigger_scan.simps) simp
  qed
qed

lemma trigger_scan_first:
  "i \<le> m \<Longrightarrow> m < REC_BUFFER_SIZE - 1 \<Longrightarrow> rising_crossing buf m \<Longrightarrow>
   (\<forall>j. i \<le> j \<and> j < m \<longrightarrow> \<not> rising_crossing buf j) \<Longrightarrow>
   trigger_scan buf i offset = int m"
proof (induction buf i offset rule: trigger_scan.induct)
  case (1 buf i offset)
  from "1.prems" have lt: "i < REC_BUFFER_SIZE - 1" by simp
  show ?case
  proof (cases "i = m")
    case True
    with lt "1.prems" show ?thesis by (subst trigger_scan.simps) simp
  next
    case False
    with "1.prems" have im: "i + 1 \<le> m" and nc: "\<not> rising_crossing buf i" by simp_all
    from "1.IH" [OF lt nc im] "1.prems" have "trigger_scan buf (i + 1) offset = int m" by simp
    with lt nc show ?thesis by (subst trigger_scan.simps) simp
  qed
qed

lemma signal_cycle_offset:
  assumes "\<not> AppState.is_paused st" "compute_rms (rec_buffer st) > squelch_threshold st"
  shows "trigger_offset (analysis st) =
     (if trigger_lock_on st then trigger_scan (rec_buffer st) 1 (trigger_offset st) else 0)"
  using assms by (simp add: analysis_def signal_branch_def Let_def split: prod.splits)

lemma squelch_cycle_state:
  assumes "\<not> AppState.is_paused st" "compute_rms (rec_buffer st) \<le> squelch_threshold st"
  shows "analysis st = st\<lparr>
      peak_marker := (if db (peak_marker st) * 0.99 < 20
                      then (peak_marker st)\<lparr> db := 20, frequency := 0 \<rparr>
                      else (peak_marker st)\<lparr> db := db (peak_marker st) * 0.99 \<rparr>),
      peak_hold_magnitudes := decay_peak_hold (peak_hold_magnitudes st) \<rparr>"
  using assms by (simp add: analysis_def squelch_branch_def Let_def)

text \<open>
  Claim C3, as the code has it. In every analysis cycle whose RMS exceeds the squelch
  threshold: with the trigger lock enabled the trigger offset becomes the smallest index
  \<open>i\<close> in \<open>1..N-2\<close> with \<open>sample[i-1] < 0\<close> and \<open>sample[i] \<ge> 0\<close>, and keeps its previous
  value when there is no such index; with the trigger lock disabled it becomes 0. In every
  analysis cycle whose RMS is at or below the squelch threshold the trigger offset keeps its
  previous value, whatever the lock flag is.
\<close>

theorem trigger_offset_per_cycle:
  assumes run: "\<not> AppState.is_paused st"
  shows "(compute_rms (rec_buffer st) > squelch_threshold st \<longrightarrow>
          (trigger_lock_on st \<longrightarrow>
            (\<exists>i. 1 \<le> i \<and> i \<le> REC_BUFFER_SIZE - 2 \<and> rising_crossing (rec_buffer st) i
                 \<and> (\<forall>j. 1 \<le> j \<and> j < i \<longrightarrow> \<not> rising_crossing (rec_buffer st) j)
                 \<and> trigger_offset (analysis st) = int i)
            \<or> ((\<forall>i. 1 \<le> i \<and> i \<le> REC_BUFFER_SIZE - 2 \<longrightarrow> \<not> rising_crossing (rec_buffer st) i)
                 \<and> trigger_offset (analysis st) = trigger_offset st))
          \<and> (\<not> trigger_lock_on st \<longrightarrow> trigger_offset (analysis st) = 0))
       \<and> (compute_rms (rec_buffer st) \<le> squelch_threshold st \<longrightarrow>
            trigger_offset (analysis st) = trigger_offset st)"
proof (intro conjI impI)
  assume quiet: "compute_rms (rec_buffer st) \<le> squelch_threshold st"
  show "trigger_offset (analysis st) = trigger_offset st"
    by (simp add: squelch_cycle_state [OF run quiet])
next
  assume loud: "compute_rms (rec_buffer st) > squelch_threshold st"
    and "\<not> trigger_lock_on st"
  then show "trigger_offset (analysis st) = 0"
    using signal_cycle_offset [OF run loud] by simp
next
  assume loud: "compute_rms (rec_buffer st) > squelch_threshold st"
    and lock: "trigger_lock_on st"
  let ?buf = "rec_buffer st"
  let ?P = "\<lambda>i. 1 \<le> i \<and> i \<le> REC_BUFFER_SIZE - 2 \<and> rising_crossing ?buf i"
  have off: "trigger_offset (analysis st) = trigger_scan ?buf 1 (trigger_offset st)"
    using signal_cycle_offset [OF run loud] lock by simp
  show "(\<exists>i. 1 \<le> i \<and> i \<le> REC_BUFFER_SIZE - 2 \<and> rising_crossing ?buf i
                 \<and> (\<forall>j. 1 \<le> j \<and> j < i \<longrightarrow> \<not> rising_crossing ?buf j)
                 \<and> trigger_offset (analysis st) = int i)
          \<or> ((\<forall>i. 1 \<le> i \<and> i \<le> REC_BUFFER_SIZE - 2 \<longrightarrow> \<not> rising_crossing ?buf i)
                 \<and> trigger_offset (analysis st) = trigger_offset st)"
  proof (cases "\<exists>i. ?P i")
    case True
    define m where "m = (LEAST i. ?P i)"
    from True have Pm: "?P m" unfolding m_def by (rule LeastI_ex)
    have least: "\<not> ?P j" if "j < m" for j
      using that not_less_Least unfolding m_def by blast
    have before: "\<forall>j. 1 \<le> j \<and> j < m \<longrightarrow> \<not> rising_crossing ?buf j"
    proof (intro allI impI)
      fix j assume j: "1 \<le> j \<and> j < m"
      with Pm have "j \<le> REC_BUFFER_SIZE - 2" by simp
      with least [of j] j show "\<not> rising_crossing ?buf j" by simp
    qed
    from Pm have "m < REC_BUFFER_SIZE - 1" by (simp add: REC_BUFFER_SIZE_def)
    with Pm before have "trigger_scan ?buf 1 (trigger_offset st) = int m"
      by (intro trigger_scan_first) simp_all
    with Pm before off show ?thesis by auto
  next
    case False
    then have none: "\<forall>i. 1 \<le> i \<and> i \<le> REC_BUFFER_SIZE - 2 \<longrightarrow> \<not> rising_crossing ?buf i"
      by blast
    then have "\<forall>j. 1 \<le> j \<and> j < REC_BUFFER_SIZE - 1 \<longrightarrow> \<not> rising_crossing ?buf j"
      by (simp add: REC_BUFFER_SIZE_def)
    then have "trigger_scan ?buf 1 (trigger_offset st) = trigger_offset st"
      by (rule trigger_scan_none)
    with none off show ?thesis by simp
  qed
qed

lemma compute_rms_sum_list:
  "length buf = REC_BUFFER_SIZE \<Longrightarrow>
   compute_rms buf = sqrt (sum_list (map (\<lambda>s. (real_of_int (sint s))\<^sup>2) buf) / real REC_BUFFER_SIZE)"
proof -
  assume len: "length buf = REC_BUFFER_SIZE"
  have "(\<Sum>i<REC_BUFFER_SIZE. (real_of_int (sint (buf ! i)))\<^sup>2)
          = (\<Sum>i = 0..<length (map (\<lambda>s. (real_of_int (sint s))\<^sup>2) buf).
               map (\<lambda>s. (real_of_int (sint s))\<^sup>2) buf ! i)"
    using len by (simp add: atLeast0LessThan)
  also have "\<dots> = sum_list (map (\<lambda>s. (real_of_int (sint s))\<^sup>2) buf)"
    by (rule sum_list_sum_nth [symmetric])
  finally show ?thesis by (simp add: compute_rms_sum)
qed

lemma compute_rms_head_tail:
  "compute_rms (a # replicate (REC_BUFFER_SIZE - 1) b)
     = sqrt (((real_of_int (sint a))\<^sup>2 + real (REC_BUFFER_SIZE - 1) * (real_of_int (sint b))\<^sup>2)
         / real REC_BUFFER_SIZE)"
proof -
  have "length (a # replicate (REC_BUFFER_SIZE - 1) b) = REC_BUFFER_SIZE"
    by (simp add: REC_BUFFER_SIZE_def)
  from compute_rms_sum_list [OF this] show ?thesis
    by (simp add: sum_list_replicate)
qed

lemma loud_crossing_rms: "compute_rms (rec_buffer loud_crossing_state) = 1000"
proof -
  have "compute_rms (rec_buffer loud_crossing_state)
      = sqrt (((real_of_int (sint (- 1000 :: Sint16)))\<^sup>2
           + real (REC_BUFFER_SIZE - 1) * (real_of_int (sint (1000 :: Sint16)))\<^sup>2) / real REC_BUFFER_SIZE)"
    unfolding loud_crossing_state_def by (simp add: compute_rms_head_tail del: One_nat_def)
  also have "\<dots> = sqrt (1000\<^sup>2)"
    by (simp add: REC_BUFFER_SIZE_def)
  also have "\<dots> = 1000" by simp
  finally show ?thesis .
qed

lemma loud_crossing_at_1: "rising_crossing (rec_buffer loud_crossing_state) 1"
proof -
  have "0 < REC_BUFFER_SIZE - 1" by (simp add: REC_BUFFER_SIZE_def)
  then have "replicate (REC_BUFFER_SIZE - 1) (1000 :: Sint16) ! 0 = 1000"
    by (rule nth_replicate)
  then show ?thesis
    unfolding loud_crossing_state_def rising_crossing_def by simp
qed

text \<open>
  The theorem on a loud buffer whose first rising crossing is at index 1, and on a silent
  buffer with the lock off and an offset of 5.
\<close>

theorem trigger_offset_per_cycle_witness:
  "\<not> AppState.is_paused loud_crossing_state
   \<and> compute_rms (rec_buffer loud_crossing_state) > squelch_threshold loud_crossing_state
   \<and> trigger_lock_on loud_crossing_state
   \<and> rising_crossing (rec_buffer loud_crossing_state) 1
   \<and> trigger_offset (analysis loud_crossing_state) = 1
   \<and> \<not> AppState.is_paused quiet_unlocked_state
   \<and> compute_rms (rec_buffer quiet_unlocked_state) \<le> squelch_threshold quiet_unlocked_state
   \<and> trigger_offset quiet_unlocked_state = 5
   \<and> trigger_offset (analysis quiet_unlocked_state) = 5"
proof -
  have run: "\<not> AppState.is_paused loud_crossing_state"
    and lock: "trigger_lock_on loud_crossing_state"
    by (simp_all add: loud_crossing_state_def main_init_sel)
  have gt: "compute_rms (rec_buffer loud_crossing_state) > squelch_threshold loud_crossing_state"
    by (simp add: loud_crossing_rms) (simp add: loud_crossing_state_def main_init_sel)
  from trigger_offset_per_cycle [OF run] gt lock loud_crossing_at_1
  have a: "trigger_offset (analysis loud_crossing_state) = 1"
    by (auto simp: REC_BUFFER_SIZE_def)
  have qrun: "\<not> AppState.is_paused quiet_unlocked_state"
    and quiet: "compute_rms (rec_buffer quiet_unlocked_state)
                  \<le> squelch_threshold quiet_unlocked_state"
    and off: "trigger_offset quiet_unlocked_state = 5"
    by (simp_all add: quiet_unlocked_state_def main_init_sel compute_rms_silence)
  from trigger_offset_per_cycle [OF qrun] quiet off
  have b: "trigger_offset (analysis quiet_unlocked_state) = 5" by simp
  from run gt lock loud_crossing_at_1 a qrun quiet off b show ?thesis by simp
qed

lemma quiet_crossing_rms: "compute_rms (rec_buffer quiet_crossing_state) = 1 / 64"
proof -
  have "compute_rms (rec_buffer quiet_crossing_state)
      = sqrt (((real_of_int (sint (- 1 :: Sint16)))\<^sup>2
           + real (REC_BUFFER_SIZE - 1) * (real_of_int (sint (0 :: Sint16)))\<^sup>2) / real REC_BUFFER_SIZE)"
    unfolding quiet_crossing_state_def by (simp add: compute_rms_head_tail del: One_nat_def)
  also have "\<dots> = sqrt ((1 / 64)\<^sup>2)"
    by (simp add: REC_BUFFER_SIZE_def power2_eq_square)
  also have "\<dots> = 1 / 64" by simp
  finally show ?thesis .
qed

text \<open>
  Claim C3 as stated fails in a cycle at or below the squelch threshold, where the scan is
  not run: with the lock disabled an offset of 5 stays 5, and with the lock enabled a
  crossing at index 1 leaves the offset at 0.
\<close>

theorem trigger_offset_squelched_counterexample:
  "\<not> AppState.is_paused quiet_unlocked_state
   \<and> \<not> trigger_lock_on quiet_unlocked_state
   \<and> trigger_offset (analysis quiet_unlocked_state) = 5
   \<and> \<not> AppState.is_paused quiet_crossing_state
   \<and> trigger_lock_on quiet_crossing_state
   \<and> rising_crossing (rec_buffer quiet_crossing_state) 1
   \<and> trigger_offset (analysis quiet_crossing_state) = 0"
proof -
  have a: "\<not> AppState.is_paused quiet_unlocked_state"
      "compute_rms (rec_buffer quiet_unlocked_state) \<le> squelch_threshold quiet_unlocked_state"
    by (simp_all add: quiet_unlocked_state_def main_init_sel compute_rms_silence)
  have b: "\<not> AppState.is_paused quiet_crossing_state"
      "compute_rms (rec_buffer quiet_crossing_state) \<le> squelch_threshold quiet_crossing_state"
    by (simp_all add: quiet_crossing_rms) (simp_all add: quiet_crossing_state_def main_init_sel)
  have "0 < REC_BUFFER_SIZE - 1" by (simp add: REC_BUFFER_SIZE_def)
  then have "replicate (REC_BUFFER_SIZE - 1) (0 :: Sint16) ! 0 = 0"
    by (rule nth_replicate)
  then have c: "rising_crossing (rec_buffer quiet_crossing_state) 1"
    unfolding quiet_crossing_state_def rising_crossing_def by simp
  show ?thesis
    using a(1) b(1) c
    by (simp add: squelch_cycle_state [OF a] squelch_cycle_state [OF b])
       (simp add: quiet_unlocked_state_def quiet_crossing_state_def main_init_sel)
qed

section \<open>The squelched cycle\<close>

text \<open>
  Claim C7. In an analysis cycle whose RMS is at or below the squelch threshold the marker's
  dB value is multiplied by 0.99 and, when the product is below 20, set to exactly 20 with
  the marker frequency set to 0. The marker position, the trigger offset and the display
  sample count keep their values, every peak-hold entry is only multiplied by 0.9995, and
  nothing else in the state changes.
\<close>

theorem squelched_cycle_effect:
  assumes run: "\<not> AppState.is_paused st"
    and quiet: "compute_rms (rec_buffer st) \<le> squelch_threshold st"
    and len: "length (peak_hold_magnitudes st) = REC_BUFFER_SIZE div 2"
  shows "db (peak_marker (analysis st))
           = (if db (peak_marker st) * 0.99 < 20 then 20 else db (peak_marker st) * 0.99)
       \<and> frequency (peak_marker (analysis st))
           = (if db (peak_marker st) * 0.99 < 20 then 0 else frequency (peak_marker st))
       \<and> x_pos (peak_marker (analysis st)) = x_pos (peak_marker st)
       \<and> trigger_offset (analysis st) = trigger_offset st
       \<and> scope_display_samples (analysis st) = scope_display_samples st
       \<and> peak_hold_magnitudes (analysis st) = map (\<lambda>v. v * 0.9995) (peak_hold_magnitudes st)
       \<and> analysis st = st\<lparr> peak_marker := peak_marker (analysis st),
              peak_hold_magnitudes := peak_hold_magnitudes (analysis st) \<rparr>"
  by (simp add: squelch_cycle_state [OF run quiet] decay_peak_hold_map [OF len])

text \<open>The first cycle of \<^verbatim>\<open>main\<close> on the silent start buffer.\<close>

theorem squelched_cycle_effect_witness:
  "\<not> AppState.is_paused main_init
   \<and> compute_rms (rec_buffer main_init) \<le> squelch_threshold main_init
   \<and> length (peak_hold_magnitudes main_init) = REC_BUFFER_SIZE div 2
   \<and> db (peak_marker (analysis main_init)) = 20
   \<and> frequency (peak_marker (analysis main_init)) = 0
   \<and> x_pos (peak_marker (analysis main_init)) = 0
   \<and> trigger_offset (analysis main_init) = 0
   \<and> scope_display_samples (analysis main_init) = 2048
   \<and> peak_hold_magnitudes (analysis main_init) = replicate (REC_BUFFER_SIZE div 2) (- 999.5)"
proof -
  have run: "\<not> AppState.is_paused main_init"
    and quiet: "compute_rms (rec_buffer main_init) \<le> squelch_threshold main_init"
    and len: "length (peak_hold_magnitudes main_init) = REC_BUFFER_SIZE div 2"
    by (simp_all add: main_init_sel compute_rms_silence)
  from squelched_cycle_effect [OF run quiet len] run quiet len
  show ?thesis by (simp add: main_init_sel)
qed

section \<open>Waveform values\<close>

lemma fmod_range:
  assumes "0 \<le> a" "0 < b"
  shows "0 \<le> fmod a b" "fmod a b < b"
proof -
  have q: "0 \<le> a / b" using assms by simp
  then have eq: "fmod a b = a - b * of_int \<lfloor>a / b\<rfloor>"
    by (simp add: fmod_def double_to_int_def)
  have ba: "b * (a / b) = a" using assms(2) by simp
  have "b * of_int \<lfloor>a / b\<rfloor> \<le> b * (a / b)"
    using assms(2) by (intro mult_left_mono) simp_all
  then show "0 \<le> fmod a b" unfolding eq ba by simp
  have "a / b < of_int \<lfloor>a / b\<rfloor> + 1" by linarith
  then have "b * (a / b) < b * (of_int \<lfloor>a / b\<rfloor> + 1)"
    using assms(2) by (intro mult_strict_left_mono)
  then show "fmod a b < b" unfolding eq ba by (simp add: algebra_simps)
qed

lemma fmod_small: "0 \<le> a \<Longrightarrow> a < b \<Longrightarrow> fmod a b = a"
proof -
  assume a: "0 \<le> a" "a < b"
  then have "0 \<le> a / b" "a / b < 1" by simp_all
  then have "\<lfloor>a / b\<rfloor> = 0" by (simp add: floor_eq_iff)
  with \<open>0 \<le> a / b\<close> show ?thesis by (simp add: fmod_def double_to_int_def)
qed

text \<open>
  Claim C6. For every phase that is not negative and each of the four waveforms the value
  before scaling lies in the interval from -1 to 1, and the square wave takes only the values
  1 and -1.
\<close>

theorem synth_sample_bounds:
  assumes "0 \<le> ph"
  shows "- 1 \<le> synth_sample w ph \<and> synth_sample w ph \<le> 1
       \<and> (synth_sample WAVE_SQUARE ph = 1 \<or> synth_sample WAVE_SQUARE ph = - 1)"
proof -
  have "- 1 \<le> synth_sample w ph \<and> synth_sample w ph \<le> 1"
  proof (cases w)
    case WAVE_SINE
    then show ?thesis by simp
  next
    case WAVE_SQUARE
    then show ?thesis by simp
  next
    case WAVE_SAWTOOTH
    have "0 \<le> fmod ph (2 * pi)" "fmod ph (2 * pi) < 2 * pi"
      using fmod_range [of ph "2 * pi"] assms by simp_all
    then have "0 \<le> fmod ph (2 * pi) / pi" "fmod ph (2 * pi) / pi < 2"
      by (simp_all add: pos_divide_less_eq)
    with WAVE_SAWTOOTH show ?thesis by (simp add: M_PI_def)
  next
    case WAVE_TRIANGLE
    have "0 \<le> ph / (2 * pi)" using assms by simp
    then have "0 \<le> fmod (ph / (2 * pi)) 1" "fmod (ph / (2 * pi)) 1 < 1"
      using fmod_range [of "ph / (2 * pi)" 1] by simp_all
    then have "\<bar>fmod (ph / (2 * pi)) 1 * 2 - 1\<bar> \<le> 1" by (simp add: abs_le_iff)
    with WAVE_TRIANGLE show ?thesis by (simp add: M_PI_def fabs_def)
  qed
  then show ?thesis by simp
qed

text \<open>The sawtooth at phase \<open>pi\<close>.\<close>

theorem synth_sample_bounds_witness:
  "(0::real) \<le> pi
   \<and> - 1 \<le> synth_sample WAVE_SAWTOOTH pi \<and> synth_sample WAVE_SAWTOOTH pi \<le> 1
   \<and> (synth_sample WAVE_SQUARE pi = 1 \<or> synth_sample WAVE_SQUARE pi = - 1)"
  using synth_sample_bounds [of pi WAVE_SAWTOOTH] by simp

section \<open>The sweep timer in binary64\<close>

text \<open>
  Inside one binade the doubles are the multiples of one unit, so an addition of the tick
  moves the timer by the tick rounded to that unit: a run of additions that stays in the
  binade is linear. The timer is followed from 0 that way, one single addition where the sum
  enters the next binade and one run inside each binade, up to its 882001st addition.
\<close>

lemma rne_near_int:
  assumes "\<bar>a\<bar> < 1 / 2"
  shows "rne (of_int z + a) = z"
proof (cases "0 \<le> a")
  case True
  with assms have "\<lfloor>of_int z + a\<rfloor> = z" by (simp add: floor_eq_iff)
  with True assms show ?thesis by (simp add: rne_def Let_def)
next
  case False
  with assms have "\<lfloor>of_int z + a\<rfloor> = z - 1" by (simp add: floor_eq_iff)
  with False assms show ?thesis by (simp add: rne_def Let_def)
qed

lemma rne_nonneg: "0 \<le> v \<Longrightarrow> 0 \<le> rne v"
  by (simp add: rne_def Let_def)

lemma round_double_nonneg: "0 \<le> v \<Longrightarrow> 0 \<le> round_double v"
  by (simp add: round_double_def Let_def rne_nonneg)

lemma power_of_two_exponent:
  fixes lo :: real
  assumes "lo = 2 ^ n \<or> lo = 1 / 2 ^ n"
  obtains e :: int where "lo = 2 powr of_int e"
proof -
  have "(2::real) ^ n = 2 powr of_int (int n)" by (simp add: powr_realpow)
  moreover have "1 / (2::real) ^ n = 2 powr of_int (- int n)"
    by (simp add: powr_realpow powr_minus_divide)
  ultimately show ?thesis using assms that by metis
qed

lemma round_double_binade:
  assumes pw: "lo = 2 ^ n \<or> lo = 1 / 2 ^ n" and x: "lo \<le> x" "x < 2 * lo"
  shows "round_double x = (lo / 2 ^ 52) * of_int (rne (x / (lo / 2 ^ 52)))"
proof -
  from pw obtain e :: int where lo: "lo = 2 powr of_int e" by (rule power_of_two_exponent)
  have lo_pos: "0 < lo" by (simp add: lo)
  with x have pos: "0 < x" by linarith
  have "log 2 lo \<le> log 2 x" using x(1) lo_pos pos by simp
  moreover have "log 2 x < log 2 (2 * lo)" using x(2) lo_pos pos by simp
  moreover have "log 2 lo = of_int e" by (simp add: lo)
  moreover have "log 2 (2 * lo) = of_int e + 1"
    using lo_pos by (simp add: log_mult lo)
  ultimately have fl: "\<lfloor>log 2 x\<rfloor> = e" by (simp add: floor_eq_iff)
  have ueq: "2 powr (of_int e - 52) = lo / 2 ^ 52"
    by (simp add: powr_diff lo)
  from pos have ax: "\<bar>x\<bar> = x" and nz: "x \<noteq> 0" by simp_all
  show ?thesis
    unfolding round_double_def Let_def ax fl ueq by (simp only: nz if_False)
qed

lemma timer_0 [simp]: "timer 0 = 0"
  by (simp add: timer_def)

lemma timer_Suc: "timer (Suc k) = round_double (timer k + sweep_tick)"
  by (simp add: timer_def)

lemma timer_add: "timer (k + n) = ((\<lambda>t. round_double (t + sweep_tick)) ^^ n) (timer k)"
proof -
  have "k + n = n + k" by simp
  then show ?thesis unfolding timer_def by (simp only: funpow_add o_apply)
qed

lemma timer_step:
  assumes "timer k = t" "k' = Suc k" "lo = 2 ^ n \<or> lo = 1 / 2 ^ n"
    "lo \<le> t + sweep_tick" "t + sweep_tick < 2 * lo"
  shows "timer k' = (lo / 2 ^ 52) * of_int (rne ((t + sweep_tick) / (lo / 2 ^ 52)))"
  using round_double_binade [OF assms(3,4,5)] assms(1,2) by (simp add: timer_Suc)

lemma grid_run:
  fixes m q :: int
  assumes lo: "lo = 2 ^ i \<or> lo = 1 / 2 ^ i"
    and t0: "t0 = of_int m * (lo / 2 ^ 52)" "lo \<le> t0"
    and c: "c = of_int q * (lo / 2 ^ 52) + r" "\<bar>r\<bar> < lo / 2 ^ 52 / 2" "1 \<le> q"
    and last: "t0 + real (N - 1) * (of_int q * (lo / 2 ^ 52)) + c < 2 * lo"
  shows "n \<le> N \<Longrightarrow>
    ((\<lambda>t. round_double (t + c)) ^^ n) t0 = t0 + real n * (of_int q * (lo / 2 ^ 52))"
proof (induction n)
  case 0
  then show ?case by simp
next
  case (Suc n)
  let ?u = "lo / 2 ^ 52"
  have u: "0 < ?u" using lo by auto
  have qu: "0 \<le> of_int q * ?u" using c(3) u by simp
  have cpos: "0 \<le> c"
  proof -
    define v where "v = ?u"
    define w where "w = of_int q * v"
    have "1 * v \<le> of_int q * v" using c(3) u unfolding v_def by (intro mult_right_mono) simp_all
    then have "v \<le> w" by (simp add: w_def)
    moreover have "- (v / 2) < r" using c(2) by (simp add: abs_less_iff v_def)
    moreover have "0 < v" using u by (simp add: v_def)
    ultimately have "0 \<le> w + r" by linarith
    then show ?thesis by (simp add: c(1) w_def v_def)
  qed
  let ?t = "t0 + real n * (of_int q * ?u)"
  from Suc have tn: "((\<lambda>t. round_double (t + c)) ^^ n) t0 = ?t" by simp
  have lower: "lo \<le> ?t + c" using t0(2) qu cpos by (simp add: add_increasing2)
  have "real n \<le> real (N - 1)" using Suc.prems by simp
  then have "real n * (of_int q * ?u) \<le> real (N - 1) * (of_int q * ?u)"
    using qu by (rule mult_right_mono)
  with last have upper: "?t + c < 2 * lo" by linarith
  have "(?t + c) / ?u = of_int (m + int n * q + q) + r / ?u"
    using u by (simp add: t0(1) c(1) field_simps)
  moreover have "\<bar>r / ?u\<bar> < 1 / 2" using c(2) u by (simp add: field_simps abs_less_iff)
  ultimately have "rne ((?t + c) / ?u) = m + int n * q + q"
    by (simp only: rne_near_int)
  with round_double_binade [OF lo lower upper]
  have "round_double (?t + c) = ?u * of_int (m + int n * q + q)" by simp
  also have "\<dots> = t0 + real (Suc n) * (of_int q * ?u)"
    by (simp add: t0(1) algebra_simps)
  finally show ?case by (simp add: tn)
qed

lemma timer_run:
  fixes m q :: int
  assumes "timer K = t0" "lo = 2 ^ i \<or> lo = 1 / 2 ^ i"
    "t0 = of_int m * (lo / 2 ^ 52)" "lo \<le> t0"
    "sweep_tick = of_int q * (lo / 2 ^ 52) + r" "\<bar>r\<bar> < lo / 2 ^ 52 / 2" "1 \<le> q"
    "t0 + real (N - 1) * (of_int q * (lo / 2 ^ 52)) + sweep_tick < 2 * lo"
  shows "\<forall>n \<le> N. timer (K + n) = t0 + real n * (of_int q * (lo / 2 ^ 52))"
  using grid_run [OF assms(2,3,4,5,6,7,8)] assms(1) by (simp add: timer_add)

lemma sweep_tick_value: "sweep_tick = 6692696262570359 / 2 ^ 68"
proof -
  have "round_double (1 / 44100)
      = (1 / 65536 / 2 ^ 52) * of_int (rne (1 / 44100 / (1 / 65536 / 2 ^ 52)))"
    by (rule round_double_binade [where n = 16]) simp_all
  also have "rne (1 / 44100 / (1 / 65536 / 2 ^ 52)) = 6692696262570359"
    by (simp add: rne_def Let_def)
  finally show ?thesis by (simp add: sweep_tick_def SAMPLE_RATE_def)
qed

lemma timer_run_bound:
  assumes run: "\<forall>n \<le> N. timer (K + n) = t0 + real n * d"
    and "0 \<le> t0" "0 \<le> d" "t0 + real N * d < 20" "K \<le> k" "k \<le> K + N"
  shows "0 \<le> timer k \<and> timer k < 20"
proof -
  define n where "n = k - K"
  with assms(5,6) have n: "n \<le> N" and k: "k = K + n" by simp_all
  from run n have eq: "timer k = t0 + real n * d" unfolding k by simp
  have "real n * d \<le> real N * d" using n assms(3) by (intro mult_right_mono) simp_all
  moreover have "0 \<le> real n * d" using assms(3) by simp
  ultimately show ?thesis using assms(2,4) unfolding eq by linarith
qed

lemma timer_below_0: "k \<le> 0 \<Longrightarrow> 0 \<le> timer k \<and> timer k < 20"
  by simp

lemma timer_at_1: "timer 1 = 6692696262570359 / 2 ^ 68"
proof -
  have "timer 1 = (1 / 2 ^ 16 / 2 ^ 52)
      * of_int (rne ((0 + sweep_tick)
            / (1 / 2 ^ 16 / 2 ^ 52)))"
    by (rule timer_step [where k = 0 and n = 16, OF timer_0])
       (simp_all add: sweep_tick_value)
  also have "rne ((0 + sweep_tick)
            / (1 / 2 ^ 16 / 2 ^ 52))
      = 6692696262570359"
    by (simp add: sweep_tick_value rne_def Let_def)
  finally show ?thesis by simp
qed

lemma timer_below_1: "k \<le> 1 \<Longrightarrow> 0 \<le> timer k \<and> timer k < 20"
proof (cases "k \<le> 0")
  case True
  then show ?thesis by (rule timer_below_0)
next
  case False
  assume "k \<le> 1"
  with False have k: "k = 1" by simp
  show ?thesis unfolding k timer_at_1 by simp
qed

lemma timer_at_2: "timer 2 = 13385392525140718 / 2 ^ 68"
proof -
  have "timer 2 = (1 / 2 ^ 15 / 2 ^ 52)
      * of_int (rne ((6692696262570359 / 2 ^ 68 + sweep_tick)
            / (1 / 2 ^ 15 / 2 ^ 52)))"
    by (rule timer_step [where k = 1 and n = 15, OF timer_at_1])
       (simp_all add: sweep_tick_value)
  also have "rne ((6692696262570359 / 2 ^ 68 + sweep_tick)
            / (1 / 2 ^ 15 / 2 ^ 52))
      = 6692696262570359"
    by (simp add: sweep_tick_value rne_def Let_def)
  finally show ?thesis by simp
qed

lemma timer_below_2: "k \<le> 2 \<Longrightarrow> 0 \<le> timer k \<and> timer k < 20"
proof (cases "k \<le> 1")
  case True
  then show ?thesis by (rule timer_below_1)
next
  case False
  assume "k \<le> 2"
  with False have k: "k = 2" by simp
  show ?thesis unfolding k timer_at_2 by simp
qed

lemma timer_at_3: "timer 3 = 20078088787711076 / 2 ^ 68"
proof -
  have "timer 3 = (1 / 2 ^ 14 / 2 ^ 52)
      * of_int (rne ((13385392525140718 / 2 ^ 68 + sweep_tick)
            / (1 / 2 ^ 14 / 2 ^ 52)))"
    by (rule timer_step [where k = 2 and n = 14, OF timer_at_2])
       (simp_all add: sweep_tick_value)
  also have "rne ((13385392525140718 / 2 ^ 68 + sweep_tick)
            / (1 / 2 ^ 14 / 2 ^ 52))
      = 5019522196927769"
    by (simp add: sweep_tick_value rne_def Let_def)
  finally show ?thesis by simp
qed

lemma timer_below_3: "k \<le> 3 \<Longrightarrow> 0 \<le> timer k \<and> timer k < 20"
proof (cases "k \<le> 2")
  case True
  then show ?thesis by (rule timer_below_2)
next
  case False
  assume "k \<le> 3"
  with False have k: "k = 3" by simp
  show ?thesis unfolding k timer_at_3 by simp
qed

lemma timer_run_3:
  "\<forall>n \<le> 2. timer (3 + n)
     = 20078088787711076 / 2 ^ 68 + real n * (of_int 1673174065642590 * (1 / 2 ^ 14 / 2 ^ 52))"
  by (rule timer_run [where i = 14 and m = 5019522196927769
        and r = "- (1 / 2 ^ 68)", OF timer_at_3])
     (simp_all add: sweep_tick_value)

lemma timer_at_5: "timer 5 = 33463481312851796 / 2 ^ 68"
  using timer_run_3 [rule_format, of 2] by simp

lemma timer_below_5: "k \<le> 5 \<Longrightarrow> 0 \<le> timer k \<and> timer k < 20"
proof (cases "k \<le> 3")
  case True
  then show ?thesis by (rule timer_below_3)
next
  case False
  assume "k \<le> 5"
  with False show ?thesis
    by (intro timer_run_bound [OF timer_run_3]) simp_all
qed

lemma timer_at_6: "timer 6 = 40156177575422152 / 2 ^ 68"
proof -
  have "timer 6 = (1 / 2 ^ 13 / 2 ^ 52)
      * of_int (rne ((33463481312851796 / 2 ^ 68 + sweep_tick)
            / (1 / 2 ^ 13 / 2 ^ 52)))"
    by (rule timer_step [where k = 5 and n = 13, OF timer_at_5])
       (simp_all add: sweep_tick_value)
  also have "rne ((33463481312851796 / 2 ^ 68 + sweep_tick)
            / (1 / 2 ^ 13 / 2 ^ 52))
      = 5019522196927769"
    by (simp add: sweep_tick_value rne_def Let_def)
  finally show ?thesis by simp
qed

lemma timer_below_6: "k \<le> 6 \<Longrightarrow> 0 \<le> timer k \<and> timer k < 20"
proof (cases "k \<le> 5")
  case True
  then show ?thesis by (rule timer_below_5)
next
  case False
  assume "k \<le> 6"
  with False have k: "k = 6" by simp
  show ?thesis unfolding k timer_at_6 by simp
qed

lemma timer_run_6:
  "\<forall>n \<le> 4. timer (6 + n)
     = 40156177575422152 / 2 ^ 68 + real n * (of_int 836587032821295 * (1 / 2 ^ 13 / 2 ^ 52))"
  by (rule timer_run [where i = 13 and m = 5019522196927769
        and r = "- (1 / 2 ^ 68)", OF timer_at_6])
     (simp_all add: sweep_tick_value)

lemma timer_at_10: "timer 10 = 66926962625703592 / 2 ^ 68"
  using timer_run_6 [rule_format, of 4] by simp

lemma timer_below_10: "k \<le> 10 \<Longrightarrow> 0 \<le> timer k \<and> timer k < 20"
proof (cases "k \<le> 6")
  case True
  then show ?thesis by (rule timer_below_6)
next
  case False
  assume "k \<le> 10"
  with False show ?thesis
    by (intro timer_run_bound [OF timer_run_6]) simp_all
qed

lemma timer_at_11: "timer 11 = 73619658888273952 / 2 ^ 68"
proof -
  have "timer 11 = (1 / 2 ^ 12 / 2 ^ 52)
      * of_int (rne ((66926962625703592 / 2 ^ 68 + sweep_tick)
            / (1 / 2 ^ 12 / 2 ^ 52)))"
    by (rule timer_step [where k = 10 and n = 12, OF timer_at_10])
       (simp_all add: sweep_tick_value)
  also have "rne ((66926962625703592 / 2 ^ 68 + sweep_tick)
            / (1 / 2 ^ 12 / 2 ^ 52))
      = 4601228680517122"
    by (simp add: sweep_tick_value rne_def Let_def)
  finally show ?thesis by simp
qed

lemma timer_below_11: "k \<le> 11 \<Longrightarrow> 0 \<le> timer k \<and> timer k < 20"
proof (cases "k \<le> 10")
  case True
  then show ?thesis by (rule timer_below_10)
next
  case False
  assume "k \<le> 11"
  with False have k: "k = 11" by simp
  show ?thesis unfolding k timer_at_11 by simp
qed

lemma timer_run_11:
  "\<forall>n \<le> 10. timer (11 + n)
     = 73619658888273952 / 2 ^ 68 + real n * (of_int 418293516410647 * (1 / 2 ^ 12 / 2 ^ 52))"
  by (rule timer_run [where i = 12 and m = 4601228680517122
        and r = "7 / 2 ^ 68", OF timer_at_11])
     (simp_all add: sweep_tick_value)

lemma timer_at_21: "timer 21 = 140546621513977472 / 2 ^ 68"
  using timer_run_11 [rule_format, of 10] by simp

lemma timer_below_21: "k \<le> 21 \<Longrightarrow> 0 \<le> timer k \<and> timer k < 20"
proof (cases "k \<le> 11")
  case True
  then show ?thesis by (rule timer_below_11)
next
  case False
  assume "k \<le> 21"
  with False show ?thesis
    by (intro timer_run_bound [OF timer_run_11]) simp_all
qed

lemma timer_at_22: "timer 22 = 147239317776547840 / 2 ^ 68"
proof -
  have "timer 22 = (1 / 2 ^ 11 / 2 ^ 52)
      * of_int (rne ((140546621513977472 / 2 ^ 68 + sweep_tick)
            / (1 / 2 ^ 11 / 2 ^ 52)))"
    by (rule timer_step [where k = 21 and n = 11, OF timer_at_21])
       (simp_all add: sweep_tick_value)
  also have "rne ((140546621513977472 / 2 ^ 68 + sweep_tick)
            / (1 / 2 ^ 11 / 2 ^ 52))
      = 4601228680517120"
    by (simp add: sweep_tick_value rne_def Let_def)
  finally show ?thesis by simp
qed

lemma timer_below_22: "k \<le> 22 \<Longrightarrow> 0 \<le> timer k \<and> timer k < 20"
proof (cases "k \<le> 21")
  case True
  then show ?thesis by (rule timer_below_21)
next
  case False
  assume "k \<le> 22"
  with False have k: "k = 22" by simp
  show ?thesis unfolding k timer_at_22 by simp
qed

lemma timer_run_22:
  "\<forall>n \<le> 21. timer (22 + n)
     = 147239317776547840 / 2 ^ 68 + real n * (of_int 209146758205324 * (1 / 2 ^ 11 / 2 ^ 52))"
  by (rule timer_run [where i = 11 and m = 4601228680517120
        and r = "- (9 / 2 ^ 68)", OF timer_at_22])
     (simp_all add: sweep_tick_value)

lemma timer_at_43: "timer 43 = 287785939290525568 / 2 ^ 68"
  using timer_run_22 [rule_format, of 21] by simp

lemma timer_below_43: "k \<le> 43 \<Longrightarrow> 0 \<le> timer k \<and> timer k < 20"
proof (cases "k \<le> 22")
  case True
  then show ?thesis by (rule timer_below_22)
next
  case False
  assume "k \<le> 43"
  with False show ?thesis
    by (intro timer_run_bound [OF timer_run_22]) simp_all
qed

lemma timer_at_44: "timer 44 = 294478635553095936 / 2 ^ 68"
proof -
  have "timer 44 = (1 / 2 ^ 10 / 2 ^ 52)
      * of_int (rne ((287785939290525568 / 2 ^ 68 + sweep_tick)
            / (1 / 2 ^ 10 / 2 ^ 52)))"
    by (rule timer_step [where k = 43 and n = 10, OF timer_at_43])
       (simp_all add: sweep_tick_value)
  also have "rne ((287785939290525568 / 2 ^ 68 + sweep_tick)
            / (1 / 2 ^ 10 / 2 ^ 52))
      = 4601228680517124"
    by (simp add: sweep_tick_value rne_def Let_def)
  finally show ?thesis by simp
qed

lemma timer_below_44: "k \<le> 44 \<Longrightarrow> 0 \<le> timer k \<and> timer k < 20"
proof (cases "k \<le> 43")
  case True
  then show ?thesis by (rule timer_below_43)
next
  case False
  assume "k \<le> 44"
  with False have k: "k = 44" by simp
  show ?thesis unfolding k timer_at_44 by simp
qed

lemma timer_run_44:
  "\<forall>n \<le> 42. timer (44 + n)
     = 294478635553095936 / 2 ^ 68 + real n * (of_int 104573379102662 * (1 / 2 ^ 10 / 2 ^ 52))"
  by (rule timer_run [where i = 10 and m = 4601228680517124
        and r = "- (9 / 2 ^ 68)", OF timer_at_44])
     (simp_all add: sweep_tick_value)

lemma timer_at_86: "timer 86 = 575571878581051392 / 2 ^ 68"
  using timer_run_44 [rule_format, of 42] by simp

lemma timer_below_86: "k \<le> 86 \<Longrightarrow> 0 \<le> timer k \<and> timer k < 20"
proof (cases "k \<le> 44")
  case True
  then show ?thesis by (rule timer_below_44)
next
  case False
  assume "k \<le> 86"
  with False show ?thesis
    by (intro timer_run_bound [OF timer_run_44]) simp_all
qed

lemma timer_at_87: "timer 87 = 582264574843621760 / 2 ^ 68"
proof -
  have "timer 87 = (1 / 2 ^ 9 / 2 ^ 52)
      * of_int (rne ((575571878581051392 / 2 ^ 68 + sweep_tick)
            / (1 / 2 ^ 9 / 2 ^ 52)))"
    by (rule timer_step [where k = 86 and n = 9, OF timer_at_86])
       (simp_all add: sweep_tick_value)
  also have "rne ((575571878581051392 / 2 ^ 68 + sweep_tick)
            / (1 / 2 ^ 9 / 2 ^ 52))
      = 4548941990965795"
    by (simp add: sweep_tick_value rne_def Let_def)
  finally show ?thesis by simp
qed

lemma timer_below_87: "k \<le> 87 \<Longrightarrow> 0 \<le> timer k \<and> timer k < 20"
proof (cases "k \<le> 86")
  case True
  then show ?thesis by (rule timer_below_86)
next
  case False
  assume "k \<le> 87"
  with False have k: "k = 87" by simp
  show ?thesis unfolding k timer_at_87 by simp
qed

lemma timer_run_87:
  "\<forall>n \<le> 85. timer (87 + n)
     = 582264574843621760 / 2 ^ 68 + real n * (of_int 52286689551331 * (1 / 2 ^ 9 / 2 ^ 52))"
  by (rule timer_run [where i = 9 and m = 4548941990965795
        and r = "- (9 / 2 ^ 68)", OF timer_at_87])
     (simp_all add: sweep_tick_value)

lemma timer_at_172: "timer 172 = 1151143757162103040 / 2 ^ 68"
  using timer_run_87 [rule_format, of 85] by simp

lemma timer_below_172: "k \<le> 172 \<Longrightarrow> 0 \<le> timer k \<and> timer k < 20"
proof (cases "k \<le> 87")
  case True
  then show ?thesis by (rule timer_below_87)
next
  case False
  assume "k \<le> 172"
  with False show ?thesis
    by (intro timer_run_bound [OF timer_run_87]) simp_all
qed

lemma timer_at_173: "timer 173 = 1157836453424673280 / 2 ^ 68"
proof -
  have "timer 173 = (1 / 2 ^ 8 / 2 ^ 52)
      * of_int (rne ((1151143757162103040 / 2 ^ 68 + sweep_tick)
            / (1 / 2 ^ 8 / 2 ^ 52)))"
    by (rule timer_step [where k = 172 and n = 8, OF timer_at_172])
       (simp_all add: sweep_tick_value)
  also have "rne ((1151143757162103040 / 2 ^ 68 + sweep_tick)
            / (1 / 2 ^ 8 / 2 ^ 52))
      = 4522798646190130"
    by (simp add: sweep_tick_value rne_def Let_def)
  finally show ?thesis by simp
qed

lemma timer_below_173: "k \<le> 173 \<Longrightarrow> 0 \<le> timer k \<and> timer k < 20"
proof (cases "k \<le> 172")
  case True
  then show ?thesis by (rule timer_below_172)
next
  case False
  assume "k \<le> 173"
  with False have k: "k = 173" by simp
  show ?thesis unfolding k timer_at_173 by simp
qed

lemma timer_run_173:
  "\<forall>n \<le> 171. timer (173 + n)
     = 1157836453424673280 / 2 ^ 68 + real n * (of_int 26143344775665 * (1 / 2 ^ 8 / 2 ^ 52))"
  by (rule timer_run [where i = 8 and m = 4522798646190130
        and r = "119 / 2 ^ 68", OF timer_at_173])
     (simp_all add: sweep_tick_value)

lemma timer_at_344: "timer 344 = 2302287514324184320 / 2 ^ 68"
  using timer_run_173 [rule_format, of 171] by simp

lemma timer_below_344: "k \<le> 344 \<Longrightarrow> 0 \<le> timer k \<and> timer k < 20"
proof (cases "k \<le> 173")
  case True
  then show ?thesis by (rule timer_below_173)
next
  case False
  assume "k \<le> 344"
  with False show ?thesis
    by (intro timer_run_bound [OF timer_run_173]) simp_all
qed

lemma timer_at_345: "timer 345 = 2308980210586754560 / 2 ^ 68"
proof -
  have "timer 345 = (1 / 2 ^ 7 / 2 ^ 52)
      * of_int (rne ((2302287514324184320 / 2 ^ 68 + sweep_tick)
            / (1 / 2 ^ 7 / 2 ^ 52)))"
    by (rule timer_step [where k = 344 and n = 7, OF timer_at_344])
       (simp_all add: sweep_tick_value)
  also have "rne ((2302287514324184320 / 2 ^ 68 + sweep_tick)
            / (1 / 2 ^ 7 / 2 ^ 52))
      = 4509726973802255"
    by (simp add: sweep_tick_value rne_def Let_def)
  finally show ?thesis by simp
qed

lemma timer_below_345: "k \<le> 345 \<Longrightarrow> 0 \<le> timer k \<and> timer k < 20"
proof (cases "k \<le> 344")
  case True
  then show ?thesis by (rule timer_below_344)
next
  case False
  assume "k \<le> 345"
  with False have k: "k = 345" by simp
  show ?thesis unfolding k timer_at_345 by simp
qed

lemma timer_run_345:
  "\<forall>n \<le> 344. timer (345 + n)
     = 2308980210586754560 / 2 ^ 68 + real n * (of_int 13071672387833 * (1 / 2 ^ 7 / 2 ^ 52))"
  by (rule timer_run [where i = 7 and m = 4509726973802255
        and r = "- (137 / 2 ^ 68)", OF timer_at_345])
     (simp_all add: sweep_tick_value)

lemma timer_at_689: "timer 689 = 4611267724911005184 / 2 ^ 68"
  using timer_run_345 [rule_format, of 344] by simp

lemma timer_below_689: "k \<le> 689 \<Longrightarrow> 0 \<le> timer k \<and> timer k < 20"
proof (cases "k \<le> 345")
  case True
  then show ?thesis by (rule timer_below_345)
next
  case False
  assume "k \<le> 689"
  with False show ?thesis
    by (intro timer_run_bound [OF timer_run_345]) simp_all
qed

lemma timer_at_690: "timer 690 = 4617960421173575680 / 2 ^ 68"
proof -
  have "timer 690 = (1 / 2 ^ 6 / 2 ^ 52)
      * of_int (rne ((4611267724911005184 / 2 ^ 68 + sweep_tick)
            / (1 / 2 ^ 6 / 2 ^ 52)))"
    by (rule timer_step [where k = 689 and n = 6, OF timer_at_689])
       (simp_all add: sweep_tick_value)
  also have "rne ((4611267724911005184 / 2 ^ 68 + sweep_tick)
            / (1 / 2 ^ 6 / 2 ^ 52))
      = 4509726973802320"
    by (simp add: sweep_tick_value rne_def Let_def)
  finally show ?thesis by simp
qed

lemma timer_below_690: "k \<le> 690 \<Longrightarrow> 0 \<le> timer k \<and> timer k < 20"
proof (cases "k \<le> 689")
  case True
  then show ?thesis by (rule timer_below_689)
next
  case False
  assume "k \<le> 690"
  with False have k: "k = 690" by simp
  show ?thesis unfolding k timer_at_690 by simp
qed

lemma timer_run_690:
  "\<forall>n \<le> 688. timer (690 + n)
     = 4617960421173575680 / 2 ^ 68 + real n * (of_int 6535836193916 * (1 / 2 ^ 6 / 2 ^ 52))"
  by (rule timer_run [where i = 6 and m = 4509726973802320
        and r = "375 / 2 ^ 68", OF timer_at_690])
     (simp_all add: sweep_tick_value)

lemma timer_at_1378: "timer 1378 = 9222535449821724672 / 2 ^ 68"
  using timer_run_690 [rule_format, of 688] by simp

lemma timer_below_1378: "k \<le> 1378 \<Longrightarrow> 0 \<le> timer k \<and> timer k < 20"
proof (cases "k \<le> 690")
  case True
  then show ?thesis by (rule timer_below_690)
next
  case False
  assume "k \<le> 1378"
  with False show ?thesis
    by (intro timer_run_bound [OF timer_run_690]) simp_all
qed

lemma timer_at_1379: "timer 1379 = 9229228146084294656 / 2 ^ 68"
proof -
  have "timer 1379 = (1 / 2 ^ 5 / 2 ^ 52)
      * of_int (rne ((9222535449821724672 / 2 ^ 68 + sweep_tick)
            / (1 / 2 ^ 5 / 2 ^ 52)))"
    by (rule timer_step [where k = 1378 and n = 5, OF timer_at_1378])
       (simp_all add: sweep_tick_value)
  also have "rne ((9222535449821724672 / 2 ^ 68 + sweep_tick)
            / (1 / 2 ^ 5 / 2 ^ 52))
      = 4506459055705222"
    by (simp add: sweep_tick_value rne_def Let_def)
  finally show ?thesis by simp
qed

lemma timer_below_1379: "k \<le> 1379 \<Longrightarrow> 0 \<le> timer k \<and> timer k < 20"
proof (cases "k \<le> 1378")
  case True
  then show ?thesis by (rule timer_below_1378)
next
  case False
  assume "k \<le> 1379"
  with False have k: "k = 1379" by simp
  show ?thesis unfolding k timer_at_1379 by simp
qed

lemma timer_run_1379:
  "\<forall>n \<le> 1377. timer (1379 + n)
     = 9229228146084294656 / 2 ^ 68 + real n * (of_int 3267918096958 * (1 / 2 ^ 5 / 2 ^ 52))"
  by (rule timer_run [where i = 5 and m = 4506459055705222
        and r = "375 / 2 ^ 68", OF timer_at_1379])
     (simp_all add: sweep_tick_value)

lemma timer_at_2756: "timer 2756 = 18445070899643162624 / 2 ^ 68"
  using timer_run_1379 [rule_format, of 1377] by simp

lemma timer_below_2756: "k \<le> 2756 \<Longrightarrow> 0 \<le> timer k \<and> timer k < 20"
proof (cases "k \<le> 1379")
  case True
  then show ?thesis by (rule timer_below_1379)
next
  case False
  assume "k \<le> 2756"
  with False show ?thesis
    by (intro timer_run_bound [OF timer_run_1379]) simp_all
qed

lemma timer_at_2757: "timer 2757 = 18451763595905732608 / 2 ^ 68"
proof -
  have "timer 2757 = (1 / 2 ^ 4 / 2 ^ 52)
      * of_int (rne ((18445070899643162624 / 2 ^ 68 + sweep_tick)
            / (1 / 2 ^ 4 / 2 ^ 52)))"
    by (rule timer_step [where k = 2756 and n = 4, OF timer_at_2756])
       (simp_all add: sweep_tick_value)
  also have "rne ((18445070899643162624 / 2 ^ 68 + sweep_tick)
            / (1 / 2 ^ 4 / 2 ^ 52))
      = 4504825096656673"
    by (simp add: sweep_tick_value rne_def Let_def)
  finally show ?thesis by simp
qed

lemma timer_below_2757: "k \<le> 2757 \<Longrightarrow> 0 \<le> timer k \<and> timer k < 20"
proof (cases "k \<le> 2756")
  case True
  then show ?thesis by (rule timer_below_2756)
next
  case False
  assume "k \<le> 2757"
  with False have k: "k = 2757" by simp
  show ?thesis unfolding k timer_at_2757 by simp
qed

lemma timer_run_2757:
  "\<forall>n \<le> 2755. timer (2757 + n)
     = 18451763595905732608 / 2 ^ 68 + real n * (of_int 1633959048479 * (1 / 2 ^ 4 / 2 ^ 52))"
  by (rule timer_run [where i = 4 and m = 4504825096656673
        and r = "375 / 2 ^ 68", OF timer_at_2757])
     (simp_all add: sweep_tick_value)

lemma timer_at_5512: "timer 5512 = 36890141799286038528 / 2 ^ 68"
  using timer_run_2757 [rule_format, of 2755] by simp

lemma timer_below_5512: "k \<le> 5512 \<Longrightarrow> 0 \<le> timer k \<and> timer k < 20"
proof (cases "k \<le> 2757")
  case True
  then show ?thesis by (rule timer_below_2757)
next
  case False
  assume "k \<le> 5512"
  with False show ?thesis
    by (intro timer_run_bound [OF timer_run_2757]) simp_all
qed

lemma timer_at_5513: "timer 5513 = 36896834495548612608 / 2 ^ 68"
proof -
  have "timer 5513 = (1 / 2 ^ 3 / 2 ^ 52)
      * of_int (rne ((36890141799286038528 / 2 ^ 68 + sweep_tick)
            / (1 / 2 ^ 3 / 2 ^ 52)))"
    by (rule timer_step [where k = 5512 and n = 3, OF timer_at_5512])
       (simp_all add: sweep_tick_value)
  also have "rne ((36890141799286038528 / 2 ^ 68 + sweep_tick)
            / (1 / 2 ^ 3 / 2 ^ 52))
      = 4504008117132399"
    by (simp add: sweep_tick_value rne_def Let_def)
  finally show ?thesis by simp
qed

lemma timer_below_5513: "k \<le> 5513 \<Longrightarrow> 0 \<le> timer k \<and> timer k < 20"
proof (cases "k \<le> 5512")
  case True
  then show ?thesis by (rule timer_below_5512)
next
  case False
  assume "k \<le> 5513"
  with False have k: "k = 5513" by simp
  show ?thesis unfolding k timer_at_5513 by simp
qed

lemma timer_run_5513:
  "\<forall>n \<le> 5511. timer (5513 + n)
     = 36896834495548612608 / 2 ^ 68 + real n * (of_int 816979524240 * (1 / 2 ^ 3 / 2 ^ 52))"
  by (rule timer_run [where i = 3 and m = 4504008117132399
        and r = "- (3721 / 2 ^ 68)", OF timer_at_5513])
     (simp_all add: sweep_tick_value)

lemma timer_at_11024: "timer 11024 = 73780283598594367488 / 2 ^ 68"
  using timer_run_5513 [rule_format, of 5511] by simp

lemma timer_below_11024: "k \<le> 11024 \<Longrightarrow> 0 \<le> timer k \<and> timer k < 20"
proof (cases "k \<le> 5513")
  case True
  then show ?thesis by (rule timer_below_5513)
next
  case False
  assume "k \<le> 11024"
  with False show ?thesis
    by (intro timer_run_bound [OF timer_run_5513]) simp_all
qed

lemma timer_at_11025: "timer 11025 = 73786976294856933376 / 2 ^ 68"
proof -
  have "timer 11025 = (1 / 2 ^ 2 / 2 ^ 52)
      * of_int (rne ((73780283598594367488 / 2 ^ 68 + sweep_tick)
            / (1 / 2 ^ 2 / 2 ^ 52)))"
    by (rule timer_step [where k = 11024 and n = 2, OF timer_at_11024])
       (simp_all add: sweep_tick_value)
  also have "rne ((73780283598594367488 / 2 ^ 68 + sweep_tick)
            / (1 / 2 ^ 2 / 2 ^ 52))
      = 4503599627371639"
    by (simp add: sweep_tick_value rne_def Let_def)
  finally show ?thesis by simp
qed

lemma timer_below_11025: "k \<le> 11025 \<Longrightarrow> 0 \<le> timer k \<and> timer k < 20"
proof (cases "k \<le> 11024")
  case True
  then show ?thesis by (rule timer_below_11024)
next
  case False
  assume "k \<le> 11025"
  with False have k: "k = 11025" by simp
  show ?thesis unfolding k timer_at_11025 by simp
qed

lemma timer_run_11025:
  "\<forall>n \<le> 11024. timer (11025 + n)
     = 73786976294856933376 / 2 ^ 68 + real n * (of_int 408489762120 * (1 / 2 ^ 2 / 2 ^ 52))"
  by (rule timer_run [where i = 2 and m = 4503599627371639
        and r = "- (3721 / 2 ^ 68)", OF timer_at_11025])
     (simp_all add: sweep_tick_value)

lemma timer_at_22049: "timer 22049 = 147567259893473591296 / 2 ^ 68"
  using timer_run_11025 [rule_format, of 11024] by simp

lemma timer_below_22049: "k \<le> 22049 \<Longrightarrow> 0 \<le> timer k \<and> timer k < 20"
proof (cases "k \<le> 11025")
  case True
  then show ?thesis by (rule timer_below_11025)
next
  case False
  assume "k \<le> 22049"
  with False show ?thesis
    by (intro timer_run_bound [OF timer_run_11025]) simp_all
qed

lemma timer_at_22050: "timer 22050 = 147573952589736148992 / 2 ^ 68"
proof -
  have "timer 22050 = (1 / 2 ^ 1 / 2 ^ 52)
      * of_int (rne ((147567259893473591296 / 2 ^ 68 + sweep_tick)
            / (1 / 2 ^ 1 / 2 ^ 52)))"
    by (rule timer_step [where k = 22049 and n = 1, OF timer_at_22049])
       (simp_all add: sweep_tick_value)
  also have "rne ((147567259893473591296 / 2 ^ 68 + sweep_tick)
            / (1 / 2 ^ 1 / 2 ^ 52))
      = 4503599627372319"
    by (simp add: sweep_tick_value rne_def Let_def)
  finally show ?thesis by simp
qed

lemma timer_below_22050: "k \<le> 22050 \<Longrightarrow> 0 \<le> timer k \<and> timer k < 20"
proof (cases "k \<le> 22049")
  case True
  then show ?thesis by (rule timer_below_22049)
next
  case False
  assume "k \<le> 22050"
  with False have k: "k = 22050" by simp
  show ?thesis unfolding k timer_at_22050 by simp
qed

lemma timer_run_22050:
  "\<forall>n \<le> 22049. timer (22050 + n)
     = 147573952589736148992 / 2 ^ 68 + real n * (of_int 204244881060 * (1 / 2 ^ 1 / 2 ^ 52))"
  by (rule timer_run [where i = 1 and m = 4503599627372319
        and r = "- (3721 / 2 ^ 68)", OF timer_at_22050])
     (simp_all add: sweep_tick_value)

lemma timer_at_44099: "timer 44099 = 295141212483232038912 / 2 ^ 68"
  using timer_run_22050 [rule_format, of 22049] by simp

lemma timer_below_44099: "k \<le> 44099 \<Longrightarrow> 0 \<le> timer k \<and> timer k < 20"
proof (cases "k \<le> 22050")
  case True
  then show ?thesis by (rule timer_below_22050)
next
  case False
  assume "k \<le> 44099"
  with False show ?thesis
    by (intro timer_run_bound [OF timer_run_22050]) simp_all
qed

lemma timer_at_44100: "timer 44100 = 295147905179494580224 / 2 ^ 68"
proof -
  have "timer 44100 = (2 ^ 0 / 2 ^ 52)
      * of_int (rne ((295141212483232038912 / 2 ^ 68 + sweep_tick)
            / (2 ^ 0 / 2 ^ 52)))"
    by (rule timer_step [where k = 44099 and n = 0, OF timer_at_44099])
       (simp_all add: sweep_tick_value)
  also have "rne ((295141212483232038912 / 2 ^ 68 + sweep_tick)
            / (2 ^ 0 / 2 ^ 52))
      = 4503599627372659"
    by (simp add: sweep_tick_value rne_def Let_def)
  finally show ?thesis by simp
qed

lemma timer_below_44100: "k \<le> 44100 \<Longrightarrow> 0 \<le> timer k \<and> timer k < 20"
proof (cases "k \<le> 44099")
  case True
  then show ?thesis by (rule timer_below_44099)
next
  case False
  assume "k \<le> 44100"
  with False have k: "k = 44100" by simp
  show ?thesis unfolding k timer_at_44100 by simp
qed

lemma timer_run_44100:
  "\<forall>n \<le> 44099. timer (44100 + n)
     = 295147905179494580224 / 2 ^ 68 + real n * (of_int 102122440530 * (2 ^ 0 / 2 ^ 52))"
  by (rule timer_run [where i = 0 and m = 4503599627372659
        and r = "- (3721 / 2 ^ 68)", OF timer_at_44100])
     (simp_all add: sweep_tick_value)

lemma timer_at_88199: "timer 88199 = 590289117662748934144 / 2 ^ 68"
  using timer_run_44100 [rule_format, of 44099] by simp

lemma timer_below_88199: "k \<le> 88199 \<Longrightarrow> 0 \<le> timer k \<and> timer k < 20"
proof (cases "k \<le> 44100")
  case True
  then show ?thesis by (rule timer_below_44100)
next
  case False
  assume "k \<le> 88199"
  with False show ?thesis
    by (intro timer_run_bound [OF timer_run_44100]) simp_all
qed

lemma timer_at_88200: "timer 88200 = 590295810359011442688 / 2 ^ 68"
proof -
  have "timer 88200 = (2 ^ 1 / 2 ^ 52)
      * of_int (rne ((590289117662748934144 / 2 ^ 68 + sweep_tick)
            / (2 ^ 1 / 2 ^ 52)))"
    by (rule timer_step [where k = 88199 and n = 1, OF timer_at_88199])
       (simp_all add: sweep_tick_value)
  also have "rne ((590289117662748934144 / 2 ^ 68 + sweep_tick)
            / (2 ^ 1 / 2 ^ 52))
      = 4503599627372829"
    by (simp add: sweep_tick_value rne_def Let_def)
  finally show ?thesis by simp
qed

lemma timer_below_88200: "k \<le> 88200 \<Longrightarrow> 0 \<le> timer k \<and> timer k < 20"
proof (cases "k \<le> 88199")
  case True
  then show ?thesis by (rule timer_below_88199)
next
  case False
  assume "k \<le> 88200"
  with False have k: "k = 88200" by simp
  show ?thesis unfolding k timer_at_88200 by simp
qed

lemma timer_run_88200:
  "\<forall>n \<le> 88199. timer (88200 + n)
     = 590295810359011442688 / 2 ^ 68 + real n * (of_int 51061220265 * (2 ^ 1 / 2 ^ 52))"
  by (rule timer_run [where i = 1 and m = 4503599627372829
        and r = "- (3721 / 2 ^ 68)", OF timer_at_88200])
     (simp_all add: sweep_tick_value)

lemma timer_at_176399: "timer 176399 = 1180584928021782724608 / 2 ^ 68"
  using timer_run_88200 [rule_format, of 88199] by simp

lemma timer_below_176399: "k \<le> 176399 \<Longrightarrow> 0 \<le> timer k \<and> timer k < 20"
proof (cases "k \<le> 88200")
  case True
  then show ?thesis by (rule timer_below_88200)
next
  case False
  assume "k \<le> 176399"
  with False show ?thesis
    by (intro timer_run_bound [OF timer_run_88200]) simp_all
qed

lemma timer_at_176400: "timer 176400 = 1180591620718045167616 / 2 ^ 68"
proof -
  have "timer 176400 = (2 ^ 2 / 2 ^ 52)
      * of_int (rne ((1180584928021782724608 / 2 ^ 68 + sweep_tick)
            / (2 ^ 2 / 2 ^ 52)))"
    by (rule timer_step [where k = 176399 and n = 2, OF timer_at_176399])
       (simp_all add: sweep_tick_value)
  also have "rne ((1180584928021782724608 / 2 ^ 68 + sweep_tick)
            / (2 ^ 2 / 2 ^ 52))
      = 4503599627372914"
    by (simp add: sweep_tick_value rne_def Let_def)
  finally show ?thesis by simp
qed

lemma timer_below_176400: "k \<le> 176400 \<Longrightarrow> 0 \<le> timer k \<and> timer k < 20"
proof (cases "k \<le> 176399")
  case True
  then show ?thesis by (rule timer_below_176399)
next
  case False
  assume "k \<le> 176400"
  with False have k: "k = 176400" by simp
  show ?thesis unfolding k timer_at_176400 by simp
qed

lemma timer_run_176400:
  "\<forall>n \<le> 176400. timer (176400 + n)
     = 1180591620718045167616 / 2 ^ 68 + real n * (of_int 25530610132 * (2 ^ 2 / 2 ^ 52))"
  by (rule timer_run [where i = 2 and m = 4503599627372914
        and r = "127351 / 2 ^ 68", OF timer_at_176400])
     (simp_all add: sweep_tick_value)

lemma timer_at_352800: "timer 352800 = 2361183241412991778816 / 2 ^ 68"
  using timer_run_176400 [rule_format, of 176400] by simp

lemma timer_below_352800: "k \<le> 352800 \<Longrightarrow> 0 \<le> timer k \<and> timer k < 20"
proof (cases "k \<le> 176400")
  case True
  then show ?thesis by (rule timer_below_176400)
next
  case False
  assume "k \<le> 352800"
  with False show ?thesis
    by (intro timer_run_bound [OF timer_run_176400]) simp_all
qed

lemma timer_at_352801: "timer 352801 = 2361189934109254221824 / 2 ^ 68"
proof -
  have "timer 352801 = (2 ^ 3 / 2 ^ 52)
      * of_int (rne ((2361183241412991778816 / 2 ^ 68 + sweep_tick)
            / (2 ^ 3 / 2 ^ 52)))"
    by (rule timer_step [where k = 352800 and n = 3, OF timer_at_352800])
       (simp_all add: sweep_tick_value)
  also have "rne ((2361183241412991778816 / 2 ^ 68 + sweep_tick)
            / (2 ^ 3 / 2 ^ 52))
      = 4503612392633923"
    by (simp add: sweep_tick_value rne_def Let_def)
  finally show ?thesis by simp
qed

lemma timer_below_352801: "k \<le> 352801 \<Longrightarrow> 0 \<le> timer k \<and> timer k < 20"
proof (cases "k \<le> 352800")
  case True
  then show ?thesis by (rule timer_below_352800)
next
  case False
  assume "k \<le> 352801"
  with False have k: "k = 352801" by simp
  show ?thesis unfolding k timer_at_352801 by simp
qed

lemma timer_run_352801:
  "\<forall>n \<le> 352799. timer (352801 + n)
     = 2361189934109254221824 / 2 ^ 68 + real n * (of_int 12765305066 * (2 ^ 3 / 2 ^ 52))"
  by (rule timer_run [where i = 3 and m = 4503612392633923
        and r = "127351 / 2 ^ 68", OF timer_at_352801])
     (simp_all add: sweep_tick_value)

lemma timer_at_705600: "timer 705600 = 4722366482802885001216 / 2 ^ 68"
  using timer_run_352801 [rule_format, of 352799] by simp

lemma timer_below_705600: "k \<le> 705600 \<Longrightarrow> 0 \<le> timer k \<and> timer k < 20"
proof (cases "k \<le> 352801")
  case True
  then show ?thesis by (rule timer_below_352801)
next
  case False
  assume "k \<le> 705600"
  with False show ?thesis
    by (intro timer_run_bound [OF timer_run_352801]) simp_all
qed

lemma timer_at_705601: "timer 705601 = 4722373175499147968512 / 2 ^ 68"
proof -
  have "timer 705601 = (2 ^ 4 / 2 ^ 52)
      * of_int (rne ((4722366482802885001216 / 2 ^ 68 + sweep_tick)
            / (2 ^ 4 / 2 ^ 52)))"
    by (rule timer_step [where k = 705600 and n = 4, OF timer_at_705600])
       (simp_all add: sweep_tick_value)
  also have "rne ((4722366482802885001216 / 2 ^ 68 + sweep_tick)
            / (2 ^ 4 / 2 ^ 52))
      = 4503606009959362"
    by (simp add: sweep_tick_value rne_def Let_def)
  finally show ?thesis by simp
qed

lemma timer_below_705601: "k \<le> 705601 \<Longrightarrow> 0 \<le> timer k \<and> timer k < 20"
proof (cases "k \<le> 705600")
  case True
  then show ?thesis by (rule timer_below_705600)
next
  case False
  assume "k \<le> 705601"
  with False have k: "k = 705601" by simp
  show ?thesis unfolding k timer_at_705601 by simp
qed

lemma timer_run_705601:
  "\<forall>n \<le> 176399. timer (705601 + n)
     = 4722373175499147968512 / 2 ^ 68 + real n * (of_int 6382652533 * (2 ^ 4 / 2 ^ 52))"
  by (rule timer_run [where i = 4 and m = 4503606009959362
        and r = "127351 / 2 ^ 68", OF timer_at_705601])
     (simp_all add: sweep_tick_value)

lemma timer_at_882000: "timer 882000 = 5902958103497832136704 / 2 ^ 68"
  using timer_run_705601 [rule_format, of 176399] by simp

lemma timer_below_882000: "k \<le> 882000 \<Longrightarrow> 0 \<le> timer k \<and> timer k < 20"
proof (cases "k \<le> 705601")
  case True
  then show ?thesis by (rule timer_below_705601)
next
  case False
  assume "k \<le> 882000"
  with False show ?thesis
    by (intro timer_run_bound [OF timer_run_705601]) simp_all
qed

lemma timer_at_882001: "timer 882001 = 5902964796194094579712 / 2 ^ 68"
proof -
  have "timer 882001 = (2 ^ 4 / 2 ^ 52)
      * of_int (rne ((5902958103497832136704 / 2 ^ 68 + sweep_tick)
            / (2 ^ 4 / 2 ^ 52)))"
    by (rule timer_step [where k = 882000 and n = 4, OF timer_at_882000])
       (simp_all add: sweep_tick_value)
  also have "rne ((5902958103497832136704 / 2 ^ 68 + sweep_tick)
            / (2 ^ 4 / 2 ^ 52))
      = 5629505916780562"
    by (simp add: sweep_tick_value rne_def Let_def)
  finally show ?thesis by simp
qed

section \<open>The sample loop\<close>

lemma gen_state_0 [simp]: "gen_state 0 g = g"
  by (simp add: gen_state_def)

lemma gen_state_Suc: "gen_state (Suc n) g = gen_next (gen_state n g)"
  by (simp add: gen_state_def)

lemma playback_fold:
  "n \<le> length stream \<Longrightarrow>
   fold playback_step [0..<n] (g, stream)
     = (gen_state n g, map (\<lambda>i. snd (gen_sample (gen_state i g))) [0..<n] @ drop n stream)"
proof (induction n)
  case 0
  then show ?case by simp
next
  case (Suc n)
  then have n: "n < length stream" by simp
  have upd: "(xs @ drop n stream)[n := v] = xs @ [v] @ drop (Suc n) stream" if "length xs = n" for xs v
    using that n by (simp add: list_update_append Cons_nth_drop_Suc [symmetric] drop_Suc)
  show ?case
    using Suc n
    by (simp add: playback_step_def gen_state_Suc gen_next_def upd split: prod.splits)
qed

lemma fst_playback_step: "fst (playback_step i acc) = gen_next (fst acc)"
  by (simp add: playback_step_def gen_next_def split: prod.splits)

lemma playback_fold_state: "fst (fold playback_step [0..<n] (g, stream)) = gen_state n g"
  by (induction n) (simp_all add: fst_playback_step gen_state_Suc)

lemma sweep_step_fields [simp]:
  "wave_type (sweep_step g) = wave_type g" "phase (sweep_step g) = phase g"
  "ToneGenerator.is_paused (sweep_step g) = ToneGenerator.is_paused g"
  "is_on (sweep_step g) = is_on g"
  by (simp_all add: sweep_step_def Let_def)

lemma gen_next_fields [simp]:
  "wave_type (gen_next g) = wave_type g"
  "ToneGenerator.is_paused (gen_next g) = ToneGenerator.is_paused g"
  by (simp_all add: gen_next_def gen_sample_def Let_def)

lemma gen_state_wave_type [simp]: "wave_type (gen_state n g) = wave_type g"
  by (induction n) (simp_all add: gen_state_Suc)

lemma gen_sample_out:
  "snd (gen_sample g) = double_to_Sint16 (12000 * synth_sample (wave_type g) (phase g))"
  by (simp add: gen_sample_def Let_def)

lemma sweep_tick_nonneg: "0 \<le> sweep_tick"
  by (simp add: sweep_tick_value)

lemma sweep_step_ok:
  assumes "0 \<le> sweep_time g" "sweep_time g \<le> sweep_duration_s"
  shows "0 \<le> sweep_time (sweep_step g)" "sweep_time (sweep_step g) \<le> sweep_duration_s"
    "0 \<le> current_freq (sweep_step g)"
proof -
  have "0 \<le> sweep_time g / 20" "sweep_time g / 20 \<le> 1"
    using assms by (simp_all add: sweep_duration_s_def)
  then have "0 \<le> 4980 * (sweep_time g / 20)" "4980 * (sweep_time g / 20) \<le> 4980"
    by simp_all
  then show "0 \<le> current_freq (sweep_step g)"
    by (simp add: sweep_step_def Let_def sweep_duration_s_def start_freq_def end_freq_def)
  have "0 \<le> round_double (sweep_time g + sweep_tick)"
    using assms(1) sweep_tick_nonneg by (intro round_double_nonneg) simp
  then show "0 \<le> sweep_time (sweep_step g)" "sweep_time (sweep_step g) \<le> sweep_duration_s"
    by (simp_all add: sweep_step_def Let_def sweep_duration_s_def)
qed

lemma gen_next_ok: "gen_ok g \<Longrightarrow> gen_ok (gen_next g)"
proof -
  assume ok: "gen_ok g"
  let ?g1 = "if \<not> ToneGenerator.is_paused g then sweep_step g else g"
  have g1: "0 \<le> phase ?g1" "0 \<le> sweep_time ?g1" "sweep_time ?g1 \<le> sweep_duration_s"
      "0 \<le> current_freq ?g1"
    using ok sweep_step_ok [of g] by (simp_all add: gen_ok_def)
  have "0 \<le> 2 * pi * current_freq ?g1 / real SAMPLE_RATE"
    using g1(4) by (simp add: SAMPLE_RATE_def)
  with g1 show ?thesis
    by (simp add: gen_ok_def gen_next_def gen_sample_def Let_def M_PI_def)
qed

lemma gen_state_ok: "gen_ok g \<Longrightarrow> gen_ok (gen_state n g)"
  by (induction n) (simp_all add: gen_state_Suc gen_next_ok)

lemma double_to_int_scaled:
  assumes "- 1 \<le> v" "v \<le> 1"
  shows "- 12000 \<le> double_to_int (12000 * v)" "double_to_int (12000 * v) \<le> 12000"
proof -
  have "- 12000 \<le> 12000 * v" "12000 * v \<le> 12000" using assms by simp_all
  then show "- 12000 \<le> double_to_int (12000 * v)" "double_to_int (12000 * v) \<le> 12000"
    unfolding double_to_int_def by (auto simp: le_floor_iff floor_le_iff le_ceiling_iff ceiling_le_iff)
qed

lemma sint_double_to_Sint16:
  assumes "- 12000 \<le> double_to_int x" "double_to_int x \<le> 12000"
  shows "sint (double_to_Sint16 x) = double_to_int x"
proof -
  have "signed_take_bit 15 (double_to_int x) = double_to_int x"
    using assms by (intro signed_take_bit_int_eq_self) simp_all
  then show ?thesis
    by (simp add: double_to_Sint16_def sint_sbintrunc')
qed

lemma playback_callback_buffer:
  assumes "len div 2 \<le> length stream" "i < len div 2"
  shows "snd (playback_callback stream len g) ! i = snd (gen_sample (gen_state i g))"
  using assms
  by (simp add: playback_callback_def Let_def playback_fold nth_append split: prod.splits)

lemma playback_callback_state:
  "fst (playback_callback stream len g)
     = (let g1 = gen_state (len div 2) g
        in if phase g1 > 2 * M_PI then g1\<lparr> phase := phase g1 - 2 * M_PI \<rparr> else g1)"
proof (cases "fold playback_step [0..<len div 2] (g, stream)")
  case (Pair g1 buffer)
  with playback_fold_state [of "len div 2" g stream] have "g1 = gen_state (len div 2) g"
    by simp
  with Pair show ?thesis
    by (simp add: playback_callback_def Let_def)
qed

text \<open>
  Claim C5, as the code has it. For every sample that \<^verbatim>\<open>playback_callback\<close> generates, the
  signed 16-bit integer written to the output block is \<open>12000 * v\<close> truncated towards zero,
  where \<open>v\<close> is the waveform value computed from the phase at that sample and the waveform
  kind; its absolute value is at most 12000, so the conversion stays inside the 16-bit range
  and no sample clips. The generator stays in its ranges over the callback.
\<close>

theorem output_samples_truncated:
  assumes ok: "gen_ok g" and room: "len div 2 \<le> length stream"
  shows "(\<forall>i < len div 2.
            sint (snd (playback_callback stream len g) ! i)
              = double_to_int (12000 * synth_sample (wave_type g) (phase (gen_state i g)))
          \<and> \<bar>sint (snd (playback_callback stream len g) ! i)\<bar> \<le> 12000)
       \<and> gen_ok (fst (playback_callback stream len g))"
proof (intro conjI allI impI)
  fix i assume i: "i < len div 2"
  let ?v = "synth_sample (wave_type g) (phase (gen_state i g))"
  have "0 \<le> phase (gen_state i g)"
    using gen_state_ok [OF ok, of i] by (simp add: gen_ok_def)
  then have v: "- 1 \<le> ?v" "?v \<le> 1"
    using synth_sample_bounds [of "phase (gen_state i g)" "wave_type g"] by simp_all
  note r = double_to_int_scaled [OF v]
  have out: "snd (playback_callback stream len g) ! i = double_to_Sint16 (12000 * ?v)"
    using playback_callback_buffer [OF room i] by (simp add: gen_sample_out)
  show "sint (snd (playback_callback stream len g) ! i) = double_to_int (12000 * ?v)"
    unfolding out by (rule sint_double_to_Sint16 [OF r])
  then show "\<bar>sint (snd (playback_callback stream len g) ! i)\<bar> \<le> 12000"
    using r by simp
next
  have "gen_ok (gen_state (len div 2) g)" by (rule gen_state_ok [OF ok])
  then show "gen_ok (fst (playback_callback stream len g))"
    by (simp add: playback_callback_state Let_def gen_ok_def)
qed

lemma triangle_init_fields:
  "\<not> ToneGenerator.is_paused triangle_init" "sweep_up triangle_init"
  "sweep_time triangle_init = 0" "phase triangle_init = 0" "wave_type triangle_init = WAVE_TRIANGLE"
  by (simp_all add: triangle_init_def generator_init_def)

lemma triangle_init_ok: "gen_ok triangle_init"
  by (simp add: gen_ok_def triangle_init_def generator_init_def sweep_duration_s_def)

text \<open>The first sample of a block of four on the triangle wave is 12000.\<close>

theorem output_samples_truncated_witness:
  "gen_ok triangle_init \<and> 8 div 2 \<le> length (replicate 4 (0 :: Sint16))
   \<and> sint (snd (playback_callback (replicate 4 0) 8 triangle_init) ! 0) = 12000
   \<and> \<bar>sint (snd (playback_callback (replicate 4 0) 8 triangle_init) ! 0)\<bar> \<le> 12000"
proof -
  have room: "8 div 2 \<le> length (replicate 4 (0 :: Sint16))" by simp
  have v0: "synth_sample (wave_type triangle_init) (phase triangle_init) = 1"
    by (simp add: triangle_init_fields fmod_small fabs_def)
  from output_samples_truncated [OF triangle_init_ok room, THEN conjunct1, rule_format, of 0]
  show ?thesis using triangle_init_ok
    by (simp add: v0 double_to_int_def)
qed

lemma gen_next_unpaused:
  assumes "\<not> ToneGenerator.is_paused g" "sweep_up g"
    "round_double (sweep_time g + sweep_tick) < 20"
  shows "gen_next g = g\<lparr> current_freq := 20 + 4980 * (sweep_time g / 20),
                          sweep_time := round_double (sweep_time g + sweep_tick),
                          phase := phase g + 2 * pi * (20 + 4980 * (sweep_time g / 20)) / 44100 \<rparr>"
  using assms
  by (simp add: gen_next_def gen_sample_def sweep_step_def Let_def sweep_duration_s_def
      start_freq_def end_freq_def SAMPLE_RATE_def M_PI_def)

lemma timer_next: "k' = Suc k \<Longrightarrow> timer k' = round_double (timer k + sweep_tick)"
  by (simp add: timer_Suc)

lemma gen_next_timer:
  assumes "\<not> ToneGenerator.is_paused g" "sweep_up g" "sweep_time g = timer k"
    "k' = Suc k" "timer k' < 20"
  shows "gen_next g = g\<lparr> current_freq := 20 + 4980 * (timer k / 20),
                          sweep_time := timer k',
                          phase := phase g + 2 * pi * (20 + 4980 * (timer k / 20)) / 44100 \<rparr>"
proof -
  have "round_double (sweep_time g + sweep_tick) = timer k'"
    using timer_next [OF assms(4)] assms(3) by simp
  with gen_next_unpaused [OF assms(1,2)] assms(3,5) show ?thesis by simp
qed

lemma triangle_state_3:
  "phase (gen_state 3 triangle_init)
     = 2 * pi * ((60 + 747 * (6692696262570359 / 2 ^ 68)) / 44100)"
  "wave_type (gen_state 3 triangle_init) = WAVE_TRIANGLE"
proof -
  let ?s1 = "triangle_init\<lparr> current_freq := 20 + 4980 * (timer 0 / 20), sweep_time := timer 1,
      phase := phase triangle_init + 2 * pi * (20 + 4980 * (timer 0 / 20)) / 44100 \<rparr>"
  let ?s2 = "?s1\<lparr> current_freq := 20 + 4980 * (timer 1 / 20), sweep_time := timer 2,
      phase := phase ?s1 + 2 * pi * (20 + 4980 * (timer 1 / 20)) / 44100 \<rparr>"
  let ?s3 = "?s2\<lparr> current_freq := 20 + 4980 * (timer 2 / 20), sweep_time := timer 3,
      phase := phase ?s2 + 2 * pi * (20 + 4980 * (timer 2 / 20)) / 44100 \<rparr>"
  have lt: "timer 1 < 20" "timer 2 < 20" "timer 3 < 20"
    using timer_at_1 timer_at_2 timer_at_3 by simp_all
  have n1: "gen_next triangle_init = ?s1"
    by (rule gen_next_timer [where k = 0 and k' = 1])
       (use lt in \<open>simp_all add: triangle_init_fields\<close>)
  have n2: "gen_next ?s1 = ?s2"
    by (rule gen_next_timer [where k = 1 and k' = 2])
       (use lt in \<open>simp_all add: triangle_init_fields\<close>)
  have n3: "gen_next ?s2 = ?s3"
    by (rule gen_next_timer [where k = 2 and k' = 3])
       (use lt in \<open>simp_all add: triangle_init_fields\<close>)
  have "gen_state 3 triangle_init = gen_next (gen_next (gen_next triangle_init))"
    by (simp add: gen_state_def numeral_3_eq_3)
  then have s3: "gen_state 3 triangle_init = ?s3"
    by (simp only: n1 n2 n3)
  show "phase (gen_state 3 triangle_init)
     = 2 * pi * ((60 + 747 * (6692696262570359 / 2 ^ 68)) / 44100)"
    unfolding s3 timer_0 timer_at_1 timer_at_2
    by (simp add: triangle_init_fields field_simps)
  show "wave_type (gen_state 3 triangle_init) = WAVE_TRIANGLE"
    by (simp add: triangle_init_fields)
qed

lemma triangle_sample_3:
  "12000 * synth_sample (wave_type triangle_init) (phase (gen_state 3 triangle_init))
     = 12000 * (1 - 4 * ((60 + 747 * (6692696262570359 / 2 ^ 68)) / 44100))"
proof -
  let ?q = "(60 + 747 * (6692696262570359 / 2 ^ 68)) / 44100 :: real"
  have "fmod ?q 1 = ?q"
    by (rule fmod_small) simp_all
  then show ?thesis
    by (simp add: triangle_state_3 triangle_init_fields M_PI_def fabs_def)
qed

text \<open>
  Claim C5 as stated fails: the fourth sample of the triangle wave from the initial state has
  \<open>12000 * v = 11934.675...\<close>; the cast writes 11934, where rounding gives 11935.
\<close>

theorem output_sample_not_rounded_counterexample:
  "sint (snd (playback_callback (replicate 4 0) 8 triangle_init) ! 3) = 11934
   \<and> round_c (12000 * synth_sample (wave_type triangle_init) (phase (gen_state 3 triangle_init)))
       = 11935"
proof -
  let ?v = "12000 * (1 - 4 * ((60 + 747 * (6692696262570359 / 2 ^ 68)) / 44100)) :: real"
  have room: "8 div 2 \<le> length (replicate 4 (0 :: Sint16))" and i: "3 < (8::nat) div 2"
    by simp_all
  have t: "double_to_int ?v = 11934"
    by (simp add: double_to_int_def)
  have out: "snd (playback_callback (replicate 4 0) 8 triangle_init) ! 3 = double_to_Sint16 ?v"
    using playback_callback_buffer [OF room i]
    by (simp only: gen_sample_out gen_state_wave_type triangle_sample_3)
  have sw: "sint (double_to_Sint16 ?v) = double_to_int ?v"
    by (rule sint_double_to_Sint16) (simp_all add: double_to_int_def)
  have rc: "round_c ?v = 11935"
    by (simp add: round_c_def)
  have a: "sint (snd (playback_callback (replicate 4 0) 8 triangle_init) ! 3) = 11934"
    by (simp only: out sw t)
  have b: "round_c (12000 * synth_sample (wave_type triangle_init)
              (phase (gen_state 3 triangle_init))) = 11935"
    by (simp only: triangle_sample_3 rc)
  from a b show ?thesis by (rule conjI)
qed

section \<open>The sweep\<close>

lemma timer_at_881999: "timer 881999 = 5902951410801569693696 / 2 ^ 68"
  using timer_run_705601 [rule_format, of 176398] by simp

lemma timer_at_881998: "timer 881998 = 5902944718105307250688 / 2 ^ 68"
  using timer_run_705601 [rule_format, of 176397] by simp

lemma timer_flip: "k \<le> 882000 \<Longrightarrow> (20 \<le> timer (Suc k)) = (Suc k = 882001)"
proof (cases "Suc k = 882001")
  case True
  then show ?thesis using timer_at_882001 by simp
next
  case False
  assume "k \<le> 882000"
  with False have "Suc k \<le> 882000" by simp
  from timer_below_882000 [OF this] False show ?thesis by simp
qed

lemma sweep_pos_step:
  assumes "sweep_pos p g"
  shows "sweep_pos (Suc p) (gen_next g)" "current_freq (gen_next g) = freq_at p"
proof -
  let ?k = "p mod 882001"
  have k: "?k \<le> 882000" using mod_less_divisor [of 882001 p] by linarith
  from assms have run: "\<not> ToneGenerator.is_paused g" and up: "sweep_up g = even (p div 882001)"
    and t: "sweep_time g = timer ?k"
    by (simp_all add: sweep_pos_def)
  have t1: "round_double (timer ?k + sweep_tick) = timer (Suc ?k)"
    by (simp add: timer_Suc)
  note ge = timer_flip [OF k]
  have step: "sweep_step g = g\<lparr> current_freq := freq_at p,
      sweep_time := (if Suc ?k = 882001 then 0 else timer (Suc ?k)),
      sweep_up := (if Suc ?k = 882001 then \<not> sweep_up g else sweep_up g) \<rparr>"
    unfolding sweep_step_def Let_def
    by (simp add: sweep_duration_s_def start_freq_def end_freq_def t1 ge up freq_at_def t)
  show "current_freq (gen_next g) = freq_at p"
    using run by (simp add: gen_next_def gen_sample_def Let_def step)
  show "sweep_pos (Suc p) (gen_next g)"
    using run up
    by (simp add: sweep_pos_def gen_next_def gen_sample_def Let_def step mod_Suc div_Suc)
qed

lemma sweep_pos_steps:
  "sweep_pos p g \<Longrightarrow>
   sweep_pos (p + n) (gen_state n g)
   \<and> current_freq (gen_state n g) = (if n = 0 then current_freq g else freq_at (p + n - 1))"
proof (induction n)
  case 0
  then show ?case by simp
next
  case (Suc n)
  then have "sweep_pos (p + n) (gen_state n g)" by simp
  from sweep_pos_step [OF this] show ?case by (simp add: gen_state_Suc)
qed

lemma sweep_pos_callback:
  assumes "sweep_pos p g"
  shows "sweep_pos (p + len div 2) (fst (playback_callback stream len g))
   \<and> current_freq (fst (playback_callback stream len g))
       = (if len div 2 = 0 then current_freq g else freq_at (p + len div 2 - 1))"
  using sweep_pos_steps [OF assms, of "len div 2"]
  by (simp add: playback_callback_state Let_def sweep_pos_def)

lemma sweep_pos_run:
  "sweep_pos p g \<Longrightarrow>
   sweep_pos (p + total_samples lens) (playback_run lens g)
   \<and> current_freq (playback_run lens g)
       = (if total_samples lens = 0 then current_freq g else freq_at (p + total_samples lens - 1))"
proof (induction lens arbitrary: p g)
  case Nil
  then show ?case by (simp add: playback_run_def total_samples_def)
next
  case (Cons len lens)
  let ?g1 = "fst (playback_callback (replicate (len div 2) 0) len g)"
  note c = sweep_pos_callback [OF Cons.prems, of len "replicate (len div 2) 0"]
  from c have p1: "sweep_pos (p + len div 2) ?g1" by simp
  have run: "playback_run (len # lens) g = playback_run lens ?g1"
    by (simp add: playback_run_def)
  have tot: "total_samples (len # lens) = len div 2 + total_samples lens"
    by (simp add: total_samples_def)
  from Cons.IH [OF p1] c show ?case
    unfolding run tot by (auto simp: add.assoc)
qed

lemma freq_at_values:
  "4999.994 < freq_at 881999" "freq_at 881999 < 4999.995"
  "4999.9999 < freq_at 882000" "freq_at 882000 < 5000"
  "freq_at 882001 = 5000"
  "20.011 < freq_at 1763999" "freq_at 1763999 < 20.012"
  "20 < freq_at 1764001" "freq_at 1764001 < 20.0001"
  "freq_at 1764002 = 20"
  by (simp_all add: freq_at_def timer_at_881998 timer_at_881999 timer_at_882000)

lemma sweep_pos_fields:
  "sweep_pos 882000 g \<Longrightarrow> sweep_up g \<and> sweep_time g = 5902958103497832136704 / 2 ^ 68"
  "sweep_pos 882001 g \<Longrightarrow> \<not> sweep_up g \<and> sweep_time g = 0"
  "sweep_pos 1764000 g \<Longrightarrow> \<not> sweep_up g"
  "sweep_pos 1764002 g \<Longrightarrow> sweep_up g \<and> sweep_time g = 0"
  by (simp_all add: sweep_pos_def timer_at_882000)

text \<open>
  Claim C4, as the code has it. From an unpaused generator with the sweep ascending and elapsed
  time 0, after callbacks that generate exactly 882000 samples (20 s) the sweep is still
  ascending: the timer is the double \<open>19.999999999697696\<close>, just below the duration, and
  \<^verbatim>\<open>current_freq\<close> is about 4999.994. Sample 882001 flips the direction to descending and
  resets the timer, with \<^verbatim>\<open>current_freq\<close> still below 5000; sample 882002 stores exactly 5000.
  After callbacks that generate another 882000 samples the sweep is still descending with
  \<^verbatim>\<open>current_freq\<close> about 20.011; two samples later, at sample 1764002, the direction is
  ascending again and the timer is 0, with \<^verbatim>\<open>current_freq\<close> still above 20; the sample after
  that stores exactly 20.
\<close>

theorem sweep_round_trip:
  assumes start: "\<not> ToneGenerator.is_paused g" "sweep_up g" "sweep_time g = 0"
    and first: "total_samples lens1 = 882000"
    and second: "total_samples lens2 = 882000"
  shows "sweep_up (playback_run lens1 g)
       \<and> sweep_time (playback_run lens1 g) = 5902958103497832136704 / 2 ^ 68
       \<and> sweep_time (playback_run lens1 g) < 20
       \<and> 4999.994 < current_freq (playback_run lens1 g)
       \<and> current_freq (playback_run lens1 g) < 4999.995
       \<and> \<not> sweep_up (gen_state 1 (playback_run lens1 g))
       \<and> sweep_time (gen_state 1 (playback_run lens1 g)) = 0
       \<and> 4999.9999 < current_freq (gen_state 1 (playback_run lens1 g))
       \<and> current_freq (gen_state 1 (playback_run lens1 g)) < 5000
       \<and> current_freq (gen_state 2 (playback_run lens1 g)) = 5000
       \<and> \<not> sweep_up (playback_run lens2 (playback_run lens1 g))
       \<and> 20.011 < current_freq (playback_run lens2 (playback_run lens1 g))
       \<and> current_freq (playback_run lens2 (playback_run lens1 g)) < 20.012
       \<and> sweep_up (gen_state 2 (playback_run lens2 (playback_run lens1 g)))
       \<and> sweep_time (gen_state 2 (playback_run lens2 (playback_run lens1 g))) = 0
       \<and> 20 < current_freq (gen_state 2 (playback_run lens2 (playback_run lens1 g)))
       \<and> current_freq (gen_state 2 (playback_run lens2 (playback_run lens1 g))) < 20.0001
       \<and> current_freq (gen_state 3 (playback_run lens2 (playback_run lens1 g))) = 20"
proof -
  let ?g1 = "playback_run lens1 g"
  let ?g2 = "playback_run lens2 ?g1"
  from start have p0: "sweep_pos 0 g" by (simp add: sweep_pos_def)
  from sweep_pos_run [OF p0, of lens1] first
  have p1: "sweep_pos 882000 ?g1" and f1: "current_freq ?g1 = freq_at 881999"
    by simp_all
  from sweep_pos_steps [OF p1, of 1]
  have q1: "sweep_pos 882001 (gen_state 1 ?g1)"
    and h1: "current_freq (gen_state 1 ?g1) = freq_at 882000"
    by simp_all
  from sweep_pos_steps [OF p1, of 2]
  have h2: "current_freq (gen_state 2 ?g1) = freq_at 882001"
    by simp
  from sweep_pos_run [OF p1, of lens2] second
  have p2: "sweep_pos 1764000 ?g2" and f2: "current_freq ?g2 = freq_at 1763999"
    by simp_all
  from sweep_pos_steps [OF p2, of 2]
  have q2: "sweep_pos 1764002 (gen_state 2 ?g2)"
    and h3: "current_freq (gen_state 2 ?g2) = freq_at 1764001"
    by simp_all
  from sweep_pos_steps [OF p2, of 3]
  have h4: "current_freq (gen_state 3 ?g2) = freq_at 1764002"
    by simp
  show ?thesis
    unfolding f1 f2 h1 h2 h3 h4
    using sweep_pos_fields(1) [OF p1] sweep_pos_fields(2) [OF q1] sweep_pos_fields(3) [OF p2]
      sweep_pos_fields(4) [OF q2] freq_at_values
    by simp
qed

lemma generator_init_fields:
  "\<not> ToneGenerator.is_paused generator_init" "sweep_up generator_init"
  "sweep_time generator_init = 0" "current_freq generator_init = 20"
  by (simp_all add: generator_init_def)

lemma blocks_total: "total_samples (replicate 430 4096 @ [2720]) = 882000"
  by (simp add: total_samples_def sum_list_replicate)

text \<open>
  The initial generator and 20 s delivered as 430 blocks of 2048 samples and one of 1360.
\<close>

theorem sweep_round_trip_witness:
  "\<not> ToneGenerator.is_paused generator_init \<and> sweep_up generator_init
   \<and> sweep_time generator_init = 0
   \<and> total_samples (replicate 430 4096 @ [2720]) = 882000
   \<and> sweep_up (playback_run (replicate 430 4096 @ [2720]) generator_init)
   \<and> current_freq (playback_run (replicate 430 4096 @ [2720]) generator_init) < 4999.995
   \<and> \<not> sweep_up (gen_state 1 (playback_run (replicate 430 4096 @ [2720]) generator_init))
   \<and> current_freq (gen_state 2 (playback_run (replicate 430 4096 @ [2720]) generator_init)) = 5000
   \<and> current_freq (gen_state 3 (playback_run (replicate 430 4096 @ [2720])
        (playback_run (replicate 430 4096 @ [2720]) generator_init))) = 20"
  using sweep_round_trip [OF generator_init_fields(1,2,3) blocks_total blocks_total]
    generator_init_fields blocks_total
  by simp

text \<open>
  Claim C4 as stated fails: after exactly 882000 samples from the initial state
  \<^verbatim>\<open>current_freq\<close> is below 5000 and the sweep has not changed direction.
\<close>

theorem sweep_end_frequency_counterexample:
  "current_freq (fst (playback_callback (replicate 882000 0) 1764000 generator_init)) < 5000
   \<and> sweep_up (fst (playback_callback (replicate 882000 0) 1764000 generator_init))"
proof -
  have p0: "sweep_pos 0 generator_init"
    by (simp add: sweep_pos_def generator_init_fields)
  note c = sweep_pos_callback [OF p0, of 1764000 "replicate 882000 0"]
  from c have "current_freq (fst (playback_callback (replicate 882000 0) 1764000 generator_init))
          = freq_at 881999"
    by simp
  moreover from c
  have "sweep_pos 882000 (fst (playback_callback (replicate 882000 0) 1764000 generator_init))"
    by simp
  ultimately show ?thesis
    using freq_at_values(2) sweep_pos_fields(1) by simp
qed

section \<open>The peak search\<close>

lemma bin_db_floor: "- 180 \<le> bin_db c"
proof -
  let ?mag = "sqrt (real_c c * real_c c + imag_c c * imag_c c)"
  have mag: "0 \<le> ?mag" by simp
  have e: "log 10 (1 / 10 ^ 9) = - 9"
  proof -
    have "log 10 (1 / 10 ^ 9) = - log 10 (10 ^ 9)"
      by (simp add: log_divide)
    also have "log 10 (10 ^ 9) = real 9 * log 10 10"
      by (rule log_nat_power) simp
    finally show ?thesis by simp
  qed
  have pos: "0 < ?mag + 1 / 10 ^ 9"
    using mag by (intro add_nonneg_pos) simp_all
  have "log 10 (1 / 10 ^ 9) \<le> log 10 (?mag + 1 / 10 ^ 9)"
    using mag pos by (subst log_le_cancel_iff) simp_all
  then have "- 9 \<le> log 10 (?mag + 1 / 10 ^ 9)" unfolding e .
  then show ?thesis by (simp add: bin_db_def log10_def Let_def)
qed

lemma peak_step_ok:
  "peak_ok acc \<Longrightarrow> 1 \<le> i \<Longrightarrow> i < REC_BUFFER_SIZE div 2 \<Longrightarrow> peak_ok (peak_step fft_input i acc)"
  using bin_db_floor [of "fft_input ! i"]
  by (cases acc) (auto simp: peak_ok_def peak_step_def Let_def)

lemma peak_fold_ok:
  "peak_ok acc \<Longrightarrow> \<forall>i \<in> set is. 1 \<le> i \<and> i < REC_BUFFER_SIZE div 2 \<Longrightarrow>
   peak_ok (fold (peak_step fft_input) is acc)"
  by (induction "is" arbitrary: acc) (simp_all add: peak_step_ok)

lemma peak_first_ok: "peak_ok (peak_step fft_input 1 (- 1000, 0, hold))"
  using bin_db_floor [of "fft_input ! 1"]
  by (auto simp: peak_ok_def peak_step_def Let_def REC_BUFFER_SIZE_def)

lemma peak_search_ok: "peak_ok (peak_search fft_input hold)"
proof -
  have "1 < REC_BUFFER_SIZE div 2" by (simp add: REC_BUFFER_SIZE_def)
  then have u: "[1..<REC_BUFFER_SIZE div 2] = 1 # [Suc 1..<REC_BUFFER_SIZE div 2]"
    by (rule upt_conv_Cons)
  have "peak_ok (fold (peak_step fft_input) [Suc 1..<REC_BUFFER_SIZE div 2]
                  (peak_step fft_input 1 (- 1000, 0, hold)))"
    by (rule peak_fold_ok [OF peak_first_ok]) simp
  then show ?thesis
    unfolding peak_search_def u by simp
qed

lemma target_freq_positive: "1 \<le> k \<Longrightarrow> 0 < target_freq_of k"
  by (simp add: target_freq_of_def max_freq_def REC_BUFFER_SIZE_def SAMPLE_RATE_def)

lemma signal_cycle_frequency:
  assumes "\<not> AppState.is_paused st" "compute_rms (rec_buffer st) > squelch_threshold st"
  shows "frequency (peak_marker (analysis st))
     = target_freq_of (fst (snd (peak_search (fft (hann_window (rec_buffer st)) REC_BUFFER_SIZE)
                                   (peak_hold_magnitudes st))))"
  using assms by (simp add: analysis_def signal_branch_def Let_def split: prod.splits)

text \<open>
  Claim C10. Every bin level \<open>20 * log10 (magnitude + 1e-9)\<close> is at least -180, above the
  -1000 that \<^verbatim>\<open>max_db\<close> starts with, so the peak search over bins \<open>1..N/2-1\<close> ends with
  \<open>1 \<le> peak_index < N/2\<close> on any transform output. Hence the target frequency is positive,
  the conditional of the auto timebase takes its first operand (never 2048), the logarithm of
  the position mapping is taken of the target frequency itself (never of 1.0), and in every
  analysis cycle above the squelch threshold the marker frequency is positive.
\<close>

theorem peak_index_at_least_one:
  assumes run: "\<not> AppState.is_paused st"
    and loud: "compute_rms (rec_buffer st) > squelch_threshold st"
  shows "- 180 \<le> bin_db c
    \<and> 1 \<le> fst (snd (peak_search fft_input hold))
    \<and> fst (snd (peak_search fft_input hold)) < REC_BUFFER_SIZE div 2
    \<and> 0 < target_freq_of (fst (snd (peak_search fft_input hold)))
    \<and> timebase_target (target_freq_of (fst (snd (peak_search fft_input hold))))
        = double_to_int (4 * (real SAMPLE_RATE / target_freq_of (fst (snd (peak_search fft_input hold)))))
    \<and> log_peak_freq (target_freq_of (fst (snd (peak_search fft_input hold))))
        = log10 (target_freq_of (fst (snd (peak_search fft_input hold))))
    \<and> frequency (peak_marker (analysis st))
        = target_freq_of (fst (snd (peak_search (fft (hann_window (rec_buffer st)) REC_BUFFER_SIZE)
                                      (peak_hold_magnitudes st))))
    \<and> 0 < frequency (peak_marker (analysis st))"
proof -
  have idx: "1 \<le> fst (snd (peak_search f h)) \<and> fst (snd (peak_search f h)) < REC_BUFFER_SIZE div 2"
    for f h
    using peak_search_ok [of f h] by (cases "peak_search f h") (simp add: peak_ok_def)
  have pos: "0 < target_freq_of (fst (snd (peak_search f h)))" for f h
    using idx [of f h] by (simp add: target_freq_positive)
  show ?thesis
    using idx [of fft_input hold] pos [of fft_input hold]
      pos [of "fft (hann_window (rec_buffer st)) REC_BUFFER_SIZE" "peak_hold_magnitudes st"]
    by (simp add: bin_db_floor timebase_target_def log_peak_freq_def
        signal_cycle_frequency [OF run loud])
qed

text \<open>The theorem on the loud buffer and on a bin that is exactly zero.\<close>

theorem peak_index_at_least_one_witness:
  "\<not> AppState.is_paused loud_crossing_state
   \<and> compute_rms (rec_buffer loud_crossing_state) > squelch_threshold loud_crossing_state
   \<and> - 180 \<le> bin_db \<lparr> real_c = 0, imag_c = 0 \<rparr>
   \<and> 1 \<le> fst (snd (peak_search (fft (hann_window (rec_buffer loud_crossing_state)) REC_BUFFER_SIZE)
                        (peak_hold_magnitudes loud_crossing_state)))
   \<and> 0 < frequency (peak_marker (analysis loud_crossing_state))"
proof -
  have run: "\<not> AppState.is_paused loud_crossing_state"
    by (simp add: loud_crossing_state_def main_init_sel)
  have gt: "compute_rms (rec_buffer loud_crossing_state) > squelch_threshold loud_crossing_state"
    by (simp add: loud_crossing_rms) (simp add: loud_crossing_state_def main_init_sel)
  from peak_index_at_least_one [OF run gt, of "\<lparr> real_c = 0, imag_c = 0 \<rparr>"
      "fft (hann_window (rec_buffer loud_crossing_state)) REC_BUFFER_SIZE"
      "peak_hold_magnitudes loud_crossing_state"] run gt
  show ?thesis by blast
qed

section \<open>Note names\<close>













section \<open>The transform is the discrete Fourier transform\<close>

text \<open>The recombination loop, cell by cell.\<close>

lemma length_fft_combine [simp]: "length (fft_combine e o' n k x) = length x"
  by (simp add: fft_combine_def Let_def)

lemma length_fold_fft_combine [simp]: "length (fold (fft_combine e o' n) ks x) = length x"
  by (induction ks arbitrary: x) simp_all

lemma fft_combine_nth:
  assumes "k < length x" "k + n div 2 < length x" "0 < n div 2"
  shows "to_complex (fft_combine e o' n k x ! k)
           = to_complex (e ! k) + cis (- 2 * pi * real k / real n) * to_complex (o' ! k)"
    and "to_complex (fft_combine e o' n k x ! (k + n div 2))
           = to_complex (e ! k) - cis (- 2 * pi * real k / real n) * to_complex (o' ! k)"
    and "i \<noteq> k \<Longrightarrow> i \<noteq> k + n div 2 \<Longrightarrow> fft_combine e o' n k x ! i = x ! i"
  using assms
  by (simp_all add: fft_combine_def Let_def to_complex_def M_PI_def complex_eq_iff)

lemma fold_fft_combine_nth:
  assumes "m \<le> n div 2" "2 * (n div 2) \<le> length x" "k < m"
  shows "to_complex (fold (fft_combine e o' n) [0..<m] x ! k)
           = to_complex (e ! k) + cis (- 2 * pi * real k / real n) * to_complex (o' ! k)
       \<and> to_complex (fold (fft_combine e o' n) [0..<m] x ! (k + n div 2))
           = to_complex (e ! k) - cis (- 2 * pi * real k / real n) * to_complex (o' ! k)"
  using assms
proof (induction m)
  case 0
  then show ?case by simp
next
  case (Suc m)
  let ?y = "fold (fft_combine e o' n) [0..<m] x"
  have len: "m < length ?y" "m + n div 2 < length ?y" "0 < n div 2"
    using Suc.prems by simp_all
  have step: "fold (fft_combine e o' n) [0..<Suc m] x = fft_combine e o' n m ?y"
    by simp
  show ?case
  proof (cases "k = m")
    case True
    then show ?thesis
      unfolding step using fft_combine_nth(1,2) [OF len] by simp
  next
    case False
    with Suc.prems have km: "k < m" by simp
    from Suc.prems have ne: "k + n div 2 \<noteq> m" "k + n div 2 \<noteq> m + n div 2" "k \<noteq> m + n div 2"
      using km by simp_all
    have "fft_combine e o' n m ?y ! k = ?y ! k"
      "fft_combine e o' n m ?y ! (k + n div 2) = ?y ! (k + n div 2)"
      using False ne by (simp_all add: fft_combine_nth(3) [OF len])
    then show ?thesis
      unfolding step using Suc.IH km Suc.prems by simp
  qed
qed

lemma length_fft [simp]: "length (fft x n) = length x"
proof (induction x n rule: fft.induct)
  case (1 x n)
  show ?case by (subst fft.simps) (simp add: Let_def)
qed

text \<open>The sum of the specification splits into its even and odd terms.\<close>

lemma sum_even_odd:
  "(\<Sum>j<2 * h. f j) = (\<Sum>j<h. f (2 * j)) + (\<Sum>j<h. f (2 * j + 1))"
  for f :: "nat \<Rightarrow> complex"
  by (induction h) (simp_all add: algebra_simps)

lemma cis_period: "cis (a - 2 * pi * real j) = cis a"
proof -
  have "cis (a - 2 * pi * real j) = cis a * cis (2 * pi * (- real j))"
    by (simp add: cis_mult algebra_simps)
  also have "cis (2 * pi * (- real j)) = 1"
    by (rule cis_multiple_2pi) simp
  finally show ?thesis by simp
qed

lemma cis_half_turn: "cis (a - pi) = - cis a"
proof -
  have "cis (a - pi) = cis a * cis (- pi)" by (simp add: cis_mult)
  also have "cis (- pi) = - 1" by (simp add: complex_eq_iff)
  finally show ?thesis by simp
qed

lemma dft_split:
  assumes len: "length xs = 2 * h"
  shows "dft xs k =
     dft (map (\<lambda>i. xs ! (2 * i)) [0..<h]) k
     + cis (- 2 * pi * real k / real (2 * h)) * dft (map (\<lambda>i. xs ! (2 * i + 1)) [0..<h]) k"
proof (cases "h = 0")
  case True
  with len show ?thesis by (simp add: dft_def)
next
  case False
  then have h: "0 < real h" by simp
  have ev: "cis (- 2 * pi * real (2 * j) * real k / real (2 * h))
              = cis (- 2 * pi * real j * real k / real h)" for j
  proof -
    have "- 2 * pi * real (2 * j) * real k / real (2 * h) = - 2 * pi * real j * real k / real h"
      using h by (simp add: field_simps)
    then show ?thesis by (simp only:)
  qed
  have od: "cis (- 2 * pi * real (2 * j + 1) * real k / real (2 * h))
              = cis (- 2 * pi * real k / real (2 * h)) * cis (- 2 * pi * real j * real k / real h)" for j
  proof -
    have "- 2 * pi * real (2 * j + 1) * real k / real (2 * h)
            = - 2 * pi * real k / real (2 * h) + - 2 * pi * real j * real k / real h"
      using h by (simp add: field_simps)
    then show ?thesis by (simp only: cis_mult)
  qed
  have "dft xs k = (\<Sum>j<h. xs ! (2 * j) * cis (- 2 * pi * real (2 * j) * real k / real (2 * h)))
      + (\<Sum>j<h. xs ! (2 * j + 1) * cis (- 2 * pi * real (2 * j + 1) * real k / real (2 * h)))"
    unfolding dft_def len by (rule sum_even_odd)
  also have "\<dots> = (\<Sum>j<h. xs ! (2 * j) * cis (- 2 * pi * real j * real k / real h))
      + cis (- 2 * pi * real k / real (2 * h))
        * (\<Sum>j<h. xs ! (2 * j + 1) * cis (- 2 * pi * real j * real k / real h))"
    unfolding ev od by (simp add: sum_distrib_left mult_ac)
  also have "\<dots> = dft (map (\<lambda>i. xs ! (2 * i)) [0..<h]) k
     + cis (- 2 * pi * real k / real (2 * h)) * dft (map (\<lambda>i. xs ! (2 * i + 1)) [0..<h]) k"
    by (simp add: dft_def)
  finally show ?thesis .
qed

lemma dft_periodic: "dft ys (k + length ys) = dft ys k"
proof (cases "length ys = 0")
  case True
  then show ?thesis by (simp add: dft_def)
next
  case False
  then have n: "0 < real (length ys)" by simp
  have "cis (- 2 * pi * real j * real (k + length ys) / real (length ys))
          = cis (- 2 * pi * real j * real k / real (length ys))" for j
  proof -
    have "- 2 * pi * real j * real (k + length ys) / real (length ys)
            = - 2 * pi * real j * real k / real (length ys) - 2 * pi * real j"
      using n by (simp add: field_simps)
    then show ?thesis by (simp only: cis_period)
  qed
  then show ?thesis by (simp add: dft_def)
qed

lemma twiddle_half: "0 < h \<Longrightarrow>
  cis (- 2 * pi * real (k + h) / real (2 * h)) = - cis (- 2 * pi * real k / real (2 * h))"
proof -
  assume "0 < h"
  then have "- 2 * pi * real (k + h) / real (2 * h) = - 2 * pi * real k / real (2 * h) - pi"
    by (simp add: field_simps)
  then show ?thesis by (simp only: cis_half_turn)
qed

lemma dft_split_upper:
  assumes len: "length xs = 2 * h" and h: "0 < h"
  shows "dft xs (k + h) =
     dft (map (\<lambda>i. xs ! (2 * i)) [0..<h]) k
     - cis (- 2 * pi * real k / real (2 * h)) * dft (map (\<lambda>i. xs ! (2 * i + 1)) [0..<h]) k"
proof -
  have p: "dft (map f [0..<h]) (k + h) = dft (map f [0..<h]) k" for f :: "nat \<Rightarrow> complex"
    using dft_periodic [of "map f [0..<h]" k] by simp
  show ?thesis
    unfolding dft_split [OF len, of "k + h"] p twiddle_half [OF h] by simp
qed

lemma fft_unfold:
  "1 < n \<Longrightarrow> fft x n =
     fold (fft_combine (fft (map (\<lambda>i. x ! (2 * i)) [0..<n div 2]) (n div 2))
                       (fft (map (\<lambda>i. x ! (2 * i + 1)) [0..<n div 2]) (n div 2)) n)
          [0..<n div 2] x"
  by (subst fft.simps) (simp add: Let_def)

lemma fft_dft:
  "length x = 2 ^ m \<Longrightarrow> k < 2 ^ m \<Longrightarrow>
   to_complex (fft x (2 ^ m) ! k) = dft (map to_complex x) k"
proof (induction m arbitrary: x k)
  case 0
  then have "length x = 1" "k = 0" by simp_all
  then show ?case
    by (subst fft.simps) (simp add: dft_def)
next
  case (Suc m)
  let ?h = "2 ^ m :: nat"
  let ?n = "2 ^ Suc m :: nat"
  let ?E = "map (\<lambda>i. x ! (2 * i)) [0..<?h]"
  let ?O = "map (\<lambda>i. x ! (2 * i + 1)) [0..<?h]"
  let ?cx = "map to_complex x"
  have h0: "0 < ?h" by simp
  then have n1: "1 < 2 * ?h" by linarith
  have n: "1 < ?n" "?n div 2 = ?h" "0 < ?h" using n1 by simp_all
  have len: "length x = 2 * ?h" using Suc.prems(1) by simp
  have clen: "length ?cx = 2 * ?h" using len by simp
  have cE: "map to_complex ?E = map (\<lambda>i. ?cx ! (2 * i)) [0..<?h]"
    using len by simp
  have cO: "map to_complex ?O = map (\<lambda>i. ?cx ! (2 * i + 1)) [0..<?h]"
    using len by simp
  have ihE: "to_complex (fft ?E ?h ! j) = dft (map to_complex ?E) j" if "j < ?h" for j
    using Suc.IH [of ?E j] that by simp
  have ihO: "to_complex (fft ?O ?h ! j) = dft (map to_complex ?O) j" if "j < ?h" for j
    using Suc.IH [of ?O j] that by simp
  have unf: "fft x ?n = fold (fft_combine (fft ?E ?h) (fft ?O ?h) ?n) [0..<?h] x"
    using fft_unfold [OF n(1), of x] by (simp only: n(2))
  have comb: "to_complex (fft x ?n ! j)
        = dft (map to_complex ?E) j + cis (- 2 * pi * real j / real ?n) * dft (map to_complex ?O) j
      \<and> to_complex (fft x ?n ! (j + ?h))
        = dft (map to_complex ?E) j - cis (- 2 * pi * real j / real ?n) * dft (map to_complex ?O) j"
    if j: "j < ?h" for j
  proof -
    have "?h \<le> ?n div 2" "2 * (?n div 2) \<le> length x"
      using len by simp_all
    from fold_fft_combine_nth [OF this j, of "fft ?E ?h" "fft ?O ?h"]
    show ?thesis
      unfolding unf by (simp only: n(2) ihE [OF j] ihO [OF j])
  qed
  have nreal: "real ?n = real (2 * ?h)" by simp
  show ?case
  proof (cases "k < ?h")
    case True
    from comb [OF True] show ?thesis
      unfolding cE cO nreal dft_split [OF clen, of k] by simp
  next
    case False
    define j where "j = k - ?h"
    with False Suc.prems(2) have j: "j < ?h" and k: "k = j + ?h" by simp_all
    from comb [OF j] show ?thesis
      unfolding k cE cO nreal dft_split_upper [OF clen n(3), of j] by simp
  qed
qed

lemma impulse_length: "0 < n \<Longrightarrow> length (impulse n) = n"
  by (simp add: impulse_def)

lemma dft_impulse:
  assumes "0 < n"
  shows "dft (map to_complex (impulse n)) k = 1"
proof -
  have z: "map to_complex (impulse n) ! j * c = (if j = 0 then c else 0)" if "j < n" for j c
    using that by (cases j) (simp_all add: impulse_def to_complex_def complex_eq_iff zero_complex.code)
  have "dft (map to_complex (impulse n)) k
          = (\<Sum>j<n. if j = 0 then cis (- 2 * pi * real j * real k / real n) else 0)"
    unfolding dft_def using assms
    by (simp only: length_map impulse_length) (intro sum.cong refl, simp add: z)
  also have "\<dots> = 1"
    using assms by (simp add: sum.delta')
  finally show ?thesis .
qed

text \<open>
  Claim C1. For every input whose length \<open>n\<close> is a power of two, \<^verbatim>\<open>fft(x, n)\<close> leaves in
  cell \<open>k\<close>, for every \<open>k < n\<close>, the sum over \<open>j\<close> of \<open>x[j] * e^(-2 pi i j k / n)\<close>; in
  particular the transform of the unit impulse has magnitude 1 in every bin.
\<close>

theorem fft_computes_dft:
  assumes "length x = 2 ^ m"
  shows "length (fft x (2 ^ m)) = 2 ^ m
       \<and> (\<forall>k < 2 ^ m. to_complex (fft x (2 ^ m) ! k) = dft (map to_complex x) k)
       \<and> (\<forall>k < 2 ^ m. cmod (to_complex (fft (impulse (2 ^ m)) (2 ^ m) ! k)) = 1)"
proof (intro conjI allI impI)
  show "length (fft x (2 ^ m)) = 2 ^ m" using assms by simp
next
  fix k :: nat assume "k < 2 ^ m"
  then show "to_complex (fft x (2 ^ m) ! k) = dft (map to_complex x) k"
    using assms by (rule fft_dft [rotated])
next
  fix k :: nat assume k: "k < 2 ^ m"
  have "length (impulse (2 ^ m)) = 2 ^ m" by (simp add: impulse_length)
  from fft_dft [OF this k] show "cmod (to_complex (fft (impulse (2 ^ m)) (2 ^ m) ! k)) = 1"
    by (simp add: dft_impulse)
qed

text \<open>The transform of \<open>[1, 2]\<close> is \<open>[3, -1]\<close>, and bin 1 of the impulse of length 2.\<close>

theorem fft_computes_dft_witness:
  "length [\<lparr> real_c = 1, imag_c = 0 \<rparr>, \<lparr> real_c = 2, imag_c = 0 \<rparr>] = 2 ^ 1
   \<and> to_complex (fft [\<lparr> real_c = 1, imag_c = 0 \<rparr>, \<lparr> real_c = 2, imag_c = 0 \<rparr>] (2 ^ 1) ! 0) = 3
   \<and> to_complex (fft [\<lparr> real_c = 1, imag_c = 0 \<rparr>, \<lparr> real_c = 2, imag_c = 0 \<rparr>] (2 ^ 1) ! 1) = - 1
   \<and> cmod (to_complex (fft (impulse (2 ^ 1)) (2 ^ 1) ! 1)) = 1"
proof -
  let ?x = "[\<lparr> real_c = 1, imag_c = 0 \<rparr>, \<lparr> real_c = 2, imag_c = 0 \<rparr>]"
  have len: "length ?x = 2 ^ 1" by simp
  have d0: "dft (map to_complex ?x) 0 = 3" and d1: "dft (map to_complex ?x) 1 = - 1"
    by (simp_all add: dft_def to_complex_def lessThan_Suc numeral_2_eq_2 complex_eq_iff)
  note main = fft_computes_dft [OF len]
  have "to_complex (fft ?x (2 ^ 1) ! 0) = dft (map to_complex ?x) 0"
    by (rule main [THEN conjunct2, THEN conjunct1, rule_format]) simp
  then have a: "to_complex (fft ?x (2 ^ 1) ! 0) = 3" by (simp only: d0)
  have "to_complex (fft ?x (2 ^ 1) ! 1) = dft (map to_complex ?x) 1"
    by (rule main [THEN conjunct2, THEN conjunct1, rule_format]) simp
  then have b: "to_complex (fft ?x (2 ^ 1) ! 1) = - 1" by (simp only: d1)
  have c: "cmod (to_complex (fft (impulse (2 ^ 1)) (2 ^ 1) ! 1)) = 1"
    by (rule main [THEN conjunct2, THEN conjunct2, rule_format]) simp
  from len a b c show ?thesis by (intro conjI)
qed

end
